theory Spec2Isabelle
  imports Complex_Main "HOL-Library.Multiset" "HOL-Library.DAList"
begin

section \<open>Spatial index\<close>

subsection \<open>Markers\<close>

text \<open>
  The types of \<^verbatim>\<open>types/index.ts\<close>. JavaScript numbers are modelled as reals. The field
  \<^verbatim>\<open>id\<close> is named \<open>pin_id\<close> (\<open>id\<close> is the identity function of HOL), \<^verbatim>\<open>type\<close> is
  \<open>pin_type\<close>. \<^verbatim>\<open>metadata\<close> and \<^verbatim>\<open>temporalData\<close> are left out: no operation modelled
  here reads them.
\<close>

record Location =
  lat :: real
  lng :: real

datatype PinType = poi | historical | landmark | event | cultural | natural

record PinData =
  name :: string
  description :: string
  category :: "string list"

record GeoPin =
  pin_id :: string
  location :: Location
  radius :: real
  pin_type :: PinType
  data :: PinData

subsection \<open>The geometry engine\<close>

text \<open>
  The service uses the turf library in two combinations only. They are parameters of the
  model:
  \<^item> \<open>bufferBBox g loc r\<close> is
    \<^verbatim>\<open>turf.bbox(turf.buffer(turf.point([loc.lng, loc.lat]), r, { units: 'meters' }))\<close>,
    the array \<open>[west, south, east, north]\<close>, or \<open>None\<close> when that expression throws
    (which the callers catch);
  \<^item> \<open>distance g a b\<close> is
    \<^verbatim>\<open>turf.distance(turf.point([a.lng, a.lat]), turf.point([b.lng, b.lat]), { units: 'meters' })\<close>.
\<close>

record turf =
  bufferBBox :: "Location \<Rightarrow> real \<Rightarrow> (real \<times> real \<times> real \<times> real) option"
  distance :: "Location \<Rightarrow> Location \<Rightarrow> real"

subsection \<open>The rectangle tree\<close>

text \<open>
  \<^verbatim>\<open>interface SpatialItem extends RBush.BBox { minX; minY; maxX; maxY; pin }\<close>
\<close>

record BBox =
  minX :: real
  minY :: real
  maxX :: real
  maxY :: real

record SpatialItem = BBox +
  pin :: GeoPin

text \<open>
  The rbush tree is modelled by the list of its leaf entries in traversal order, which for
  a tree that has not split (up to 9 entries, rbush's default node size) is the order of
  insertion. \<open>rbush_search\<close> returns the entries whose box intersects the query box
  (rbush's \<^verbatim>\<open>intersects(a, b)\<close>). \<open>rbush_remove item equalsFn\<close> removes the first entry
  \<open>x\<close> with \<open>equalsFn item x\<close>, as rbush's \<^verbatim>\<open>findItem\<close> does in a leaf. rbush reaches a
  leaf only through nodes whose box contains the box of \<open>item\<close>, so for a tree that has
  split the list model is exact when \<open>item\<close> carries the box stored with the entry it
  removes.
\<close>

definition intersects :: "'a BBox_scheme \<Rightarrow> 'b BBox_scheme \<Rightarrow> bool" where
  "intersects a b \<longleftrightarrow>
     minX b \<le> maxX a \<and> minY b \<le> maxY a \<and> maxX b \<ge> minX a \<and> maxY b \<ge> minY a"

definition rbush_insert :: "SpatialItem \<Rightarrow> SpatialItem list \<Rightarrow> SpatialItem list" where
  "rbush_insert item tree = tree @ [item]"

definition rbush_search :: "BBox \<Rightarrow> SpatialItem list \<Rightarrow> SpatialItem list" where
  "rbush_search bbox tree = filter (intersects bbox) tree"

fun rbush_remove ::
  "SpatialItem \<Rightarrow> (SpatialItem \<Rightarrow> SpatialItem \<Rightarrow> bool) \<Rightarrow> SpatialItem list \<Rightarrow> SpatialItem list"
where
  "rbush_remove item equalsFn [] = []"
| "rbush_remove item equalsFn (x # xs) =
     (if equalsFn item x then xs else x # rbush_remove item equalsFn xs)"

definition rbush_all :: "SpatialItem list \<Rightarrow> SpatialItem list" where
  "rbush_all tree = tree"

subsection \<open>The service\<close>

text \<open>
  \<^verbatim>\<open>class SpatialIndexService { private index: RBush<SpatialItem>;
  private pinMap: Map<string, GeoPin>; ... }\<close>.
  A JavaScript \<^verbatim>\<open>Map\<close> keeps one entry per key, in insertion order: an association list
  with distinct keys, where \<^verbatim>\<open>set\<close> replaces the value of a key in place or appends a
  new key, and \<^verbatim>\<open>size\<close> is the number of entries.
\<close>

record SpatialIndexService =
  index :: "SpatialItem list"
  pinMap :: "(string, GeoPin) alist"

definition newSpatialIndexService :: SpatialIndexService where
  "newSpatialIndexService = \<lparr>index = [], pinMap = DAList.empty\<rparr>"

text \<open>
  The entry that both \<^verbatim>\<open>addPin\<close> (lines 38 to 48) and \<^verbatim>\<open>removePin\<close> (lines 72 to 82)
  build for a marker: the box of the buffer of \<open>radius\<close> meters around its location,
  computed afresh from the marker each time. \<open>None\<close> when the computation throws.
\<close>

definition spatialItemOf :: "turf \<Rightarrow> GeoPin \<Rightarrow> SpatialItem option" where
  "spatialItemOf g p =
     (case bufferBBox g (location p) (radius p) of
        None \<Rightarrow> None
      | Some (w, s, e, n) \<Rightarrow> Some \<lparr>minX = w, minY = s, maxX = e, maxY = n, pin = p\<rparr>)"

text \<open>\<^verbatim>\<open>addPin\<close>: on an exception the catch block logs and nothing is stored.\<close>

definition addPin :: "turf \<Rightarrow> GeoPin \<Rightarrow> SpatialIndexService \<Rightarrow> SpatialIndexService" where
  "addPin g p svc =
     (case spatialItemOf g p of
        None \<Rightarrow> svc
      | Some spatialItem \<Rightarrow>
          svc\<lparr>index := rbush_insert spatialItem (index svc),
              pinMap := DAList.update (pin_id p) p (pinMap svc)\<rparr>)"

text \<open>
  \<^verbatim>\<open>removePin\<close> returns the boolean and the service after the call. The comparator
  handed to the tree is \<^verbatim>\<open>(a, b) => a.pin.id === b.pin.id\<close>.
\<close>

definition removePin :: "turf \<Rightarrow> string \<Rightarrow> SpatialIndexService \<Rightarrow> bool \<times> SpatialIndexService" where
  "removePin g pinId svc =
     (case DAList.lookup (pinMap svc) pinId of
        None \<Rightarrow> (False, svc)
      | Some p \<Rightarrow>
          (case spatialItemOf g p of
             None \<Rightarrow> (False, svc)
           | Some spatialItem \<Rightarrow>
               (True,
                svc\<lparr>index := rbush_remove spatialItem (\<lambda>a b. pin_id (pin a) = pin_id (pin b)) (index svc),
                    pinMap := DAList.delete pinId (pinMap svc)\<rparr>)))"

text \<open>
  \<^verbatim>\<open>queryByRadius\<close>: the coarse filter (tree search with the box of the buffer around
  the query location), then the chain
  \<^verbatim>\<open>.map(item => ({pin, distance})).filter(item => item.distance <= radiusMeters)
  .sort((a, b) => a.distance - b.distance).map(item => item.pin)\<close>.
  \<^verbatim>\<open>Array.prototype.sort\<close> is stable, as \<open>sort_key\<close> is. When the buffer computation throws,
  the catch block returns the empty array.
\<close>

definition queryByRadius :: "turf \<Rightarrow> Location \<Rightarrow> real \<Rightarrow> SpatialIndexService \<Rightarrow> GeoPin list" where
  "queryByRadius g loc radiusMeters svc =
     (case bufferBBox g loc radiusMeters of
        None \<Rightarrow> []
      | Some (w, s, e, n) \<Rightarrow>
          (let candidates = rbush_search \<lparr>minX = w, minY = s, maxX = e, maxY = n\<rparr> (index svc)
           in map fst
                (sort_key snd
                  (filter (\<lambda>item. snd item \<le> radiusMeters)
                    (map (\<lambda>item. (pin item, distance g loc (location (pin item)))) candidates)))))"

definition getAllPins :: "SpatialIndexService \<Rightarrow> GeoPin list" where
  "getAllPins svc = map snd (DAList.impl_of (pinMap svc))"

definition getPinById :: "SpatialIndexService \<Rightarrow> string \<Rightarrow> GeoPin option" where
  "getPinById svc i = DAList.lookup (pinMap svc) i"

definition clear :: "SpatialIndexService \<Rightarrow> SpatialIndexService" where
  "clear svc = svc\<lparr>index := [], pinMap := DAList.empty\<rparr>"

record SpatialStats =
  totalPins :: nat
  indexSize :: nat

definition getStats :: "SpatialIndexService \<Rightarrow> SpatialStats" where
  "getStats svc =
     \<lparr>totalPins = length (DAList.impl_of (pinMap svc)),
      indexSize = length (rbush_all (index svc))\<rparr>"

subsection \<open>A plane geometry for concrete runs\<close>

text \<open>
  The theorems below hold for every geometry engine. To run the service on concrete
  markers one engine is needed; this one measures in the plane of (lng, lat), with the
  larger of the two coordinate differences as distance, so that the buffer of a point is
  the square around it. A radius that is not positive has no buffer.
\<close>

definition plane :: turf where
  "plane =
     \<lparr>bufferBBox = (\<lambda>c r. if 0 < r then Some (lng c - r, lat c - r, lng c + r, lat c + r) else None),
      distance = (\<lambda>a b. max \<bar>lng a - lng b\<bar> \<bar>lat a - lat b\<bar>)\<rparr>"

definition testPin :: "string \<Rightarrow> real \<Rightarrow> real \<Rightarrow> GeoPin" where
  "testPin i la lo =
     \<lparr>pin_id = i, location = \<lparr>lat = la, lng = lo\<rparr>, radius = 100, pin_type = poi,
      data = \<lparr>name = i, description = ''Test description'', category = [''test'']\<rparr>\<rparr>"

definition pinA :: GeoPin where
  "pinA = testPin ''pin1'' 0 0"

definition pinB :: GeoPin where
  "pinB = testPin ''pin2'' 30 40"

definition pinC :: GeoPin where
  "pinC = testPin ''pin3'' 150 (-20)"

definition pinFar :: GeoPin where
  "pinFar = testPin ''pin5'' 9000 9000"

definition pinA_moved :: GeoPin where
  "pinA_moved = testPin ''pin1'' 500 500"

subsection \<open>Invariants of the service\<close>

text \<open>
  \<open>index_built\<close>: every entry of the tree is the entry that \<^verbatim>\<open>addPin\<close> builds for its
  marker. \<open>consistent\<close>: moreover the tree entries and the entries of the lookup table
  correspond one to one. Both hold for the empty service and are kept by \<^verbatim>\<open>removePin\<close>
  and by \<^verbatim>\<open>addPin\<close> of an id that is not tracked.
\<close>

definition index_built :: "turf \<Rightarrow> SpatialIndexService \<Rightarrow> bool" where
  "index_built g svc \<longleftrightarrow> list_all (\<lambda>x. spatialItemOf g (pin x) = Some x) (index svc)"

definition consistent :: "turf \<Rightarrow> SpatialIndexService \<Rightarrow> bool" where
  "consistent g svc \<longleftrightarrow>
     index_built g svc \<and>
     mset (DAList.impl_of (pinMap svc)) = mset (map (\<lambda>x. (pin_id (pin x), pin x)) (index svc))"

subsection \<open>The geometry engine at the 180th meridian\<close>

text \<open>
  \<^verbatim>\<open>turf.buffer\<close> draws the circle around a point in an azimuthal equidistant
  projection centred on the point, as a polygon of 32 vertices (8 steps per quadrant,
  at bearings that are multiples of 11.25 degrees), and turns the vertices back into
  longitudes and latitudes; the projection library returns longitudes in [-180, 180].
  \<^verbatim>\<open>turf.bbox\<close> takes the least and the greatest coordinate over the vertices. For a
  circle that crosses the 180th meridian the vertices east of the meridian come back with
  negative longitudes, so the box runs from the westernmost of them eastwards round the
  globe to the easternmost vertex west of the meridian, and leaves out the two strips
  next to the meridian.

  \<open>turfAtDateline\<close> holds what this gives for three locations on the equator (earth
  radius 6371008.8 m; degrees to 5 decimal places, meters to one): the query location
  (0, 179.99) with a radius of 5000 m, whose vertices at bearing 67.5 and 78.75 degrees
  have the longitudes 180.00721 (returned as -179.99279) and 179.99877, and two markers of
  radius 100 m at (0, 179.97) and (0, -179.995), 2223.9 m and 1667.9 m from the query
  location. For other arguments the engine has no entry (no buffer, distance 0); they
  are not used.
\<close>

definition dateline :: Location where
  "dateline = \<lparr>lat = 0, lng = 179.99\<rparr>"

definition pinWest :: GeoPin where
  "pinWest = testPin ''west'' 0 179.97"

definition pinEast :: GeoPin where
  "pinEast = testPin ''east'' 0 (-179.995)"

definition turfAtDateline :: turf where
  "turfAtDateline =
     \<lparr>bufferBBox = (\<lambda>c r.
        if c = dateline \<and> r = 5000 then Some (-179.99279, -0.04497, 179.99877, 0.04497)
        else if c = location pinWest \<and> r = 100 then Some (179.96910, -0.00090, 179.97090, 0.00090)
        else if c = location pinEast \<and> r = 100 then Some (-179.99590, -0.00090, -179.99410, 0.00090)
        else None),
      distance = (\<lambda>a b.
        if a = dateline \<and> b = location pinWest then 2223.9
        else if a = dateline \<and> b = location pinEast then 1667.9
        else 0)\<rparr>"

subsection \<open>Sequences of inserts and removes\<close>

text \<open>
  A sequence of calls of \<^verbatim>\<open>addPin\<close> and \<^verbatim>\<open>removePin\<close>, run from left to right.
  \<open>no_reinsert\<close> says that no call of \<^verbatim>\<open>addPin\<close> in the sequence inserts an id that is
  tracked at that moment, which is what the callers that test \<^verbatim>\<open>getPinById\<close> first make
  sure of.
\<close>

datatype index_op = Insert GeoPin | Remove string

fun applyOp :: "turf \<Rightarrow> SpatialIndexService \<Rightarrow> index_op \<Rightarrow> SpatialIndexService" where
  "applyOp g svc (Insert p) = addPin g p svc"
| "applyOp g svc (Remove i) = snd (removePin g i svc)"

fun no_reinsert :: "turf \<Rightarrow> SpatialIndexService \<Rightarrow> index_op list \<Rightarrow> bool" where
  "no_reinsert g svc [] = True"
| "no_reinsert g svc (Insert p # ops) =
     (getPinById svc (pin_id p) = None \<and> no_reinsert g (addPin g p svc) ops)"
| "no_reinsert g svc (Remove i # ops) = no_reinsert g (snd (removePin g i svc)) ops"

section \<open>Route enrichment: sampling a path\<close>

text \<open>
  \<^verbatim>\<open>discoverPOIsAlongRoute\<close> (routing service) measures the route with
  \<^verbatim>\<open>turf.length\<close> and derives everything else from that one number:
  \<^verbatim>\<open>
    const sampleInterval = Math.min(1000, routeLength / 10);
    const numSamples = Math.floor(routeLength / sampleInterval);
    for (let i = 0; i <= numSamples; i++) { const distance = i * sampleInterval; ... }
  \<close>
  JavaScript numbers are modelled as reals. The one place where IEEE arithmetic decides the
  control flow is a route of length 0: there \<^verbatim>\<open>0 / 0\<close> is NaN,
  \<^verbatim>\<open>Math.floor(NaN)\<close> is NaN and \<^verbatim>\<open>0 <= NaN\<close> is false, so the loop body never
  runs. \<open>numSamples\<close> returns \<open>None\<close> for that NaN.
\<close>

definition sampleInterval :: "real \<Rightarrow> real" where
  "sampleInterval routeLength = min 1000 (routeLength / 10)"

definition numSamples :: "real \<Rightarrow> int option" where
  "numSamples routeLength =
     (if sampleInterval routeLength = 0 then None
      else Some \<lfloor>routeLength / sampleInterval routeLength\<rfloor>)"

text \<open>
  The distances (in meters along the route) at which the loop issues one
  \<^verbatim>\<open>osmService.fetchPOIsNearLocation\<close> call each, in loop order.
\<close>

definition sampleDistances :: "real \<Rightarrow> real list" where
  "sampleDistances routeLength =
     (case numSamples routeLength of
        None \<Rightarrow> []
      | Some n \<Rightarrow> map (\<lambda>i. of_int i * sampleInterval routeLength) [0..n])"

definition providerCalls :: "real \<Rightarrow> nat" where
  "providerCalls routeLength = length (sampleDistances routeLength)"

section \<open>Route enrichment: merging the samples\<close>

text \<open>
  \<^verbatim>\<open>Number.prototype.toFixed(5)\<close>: the sign, then the integer \<open>n\<close> nearest to
  \<open>|x| * 10^5\<close> (the larger one on a tie) written with five digits after the point. The
  sign is written whenever \<open>x < 0\<close>, also when \<open>n\<close> is 0: \<^verbatim>\<open>(-0.000001).toFixed(5)\<close> is
  \<^verbatim>\<open>"-0.00000"\<close>. (Beyond \<open>10^21\<close> JavaScript switches to exponent notation; coordinates
  are far below.)
\<close>

definition digit :: "nat \<Rightarrow> char" where
  "digit d = ''0123456789'' ! d"

fun digits :: "nat \<Rightarrow> string" where
  "digits n = (if n < 10 then [digit n] else digits (n div 10) @ [digit (n mod 10)])"

definition toFixed5 :: "real \<Rightarrow> string" where
  "toFixed5 x =
     (let n = nat \<lfloor>\<bar>x\<bar> * 100000 + 1 / 2\<rfloor>
      in (if x < 0 then ''-'' else '''') @ digits (n div 100000) @ ''.'' @
         map (\<lambda>k. digit (n div 10 ^ k mod 10)) [4, 3, 2, 1, 0])"

text \<open>
  \<^verbatim>\<open>const key = `${pin.location.lat.toFixed(5)},${pin.location.lng.toFixed(5)}`;\<close>
\<close>

definition pinKey :: "GeoPin \<Rightarrow> string" where
  "pinKey p = toFixed5 (lat (location p)) @ '','' @ toFixed5 (lng (location p))"

text \<open>
  \<^verbatim>\<open>uniquePins\<close> is a \<^verbatim>\<open>Map<string, GeoPin>\<close>, here the list of its entries in insertion
  order. The body of the \<^verbatim>\<open>forEach\<close>:
  \<^verbatim>\<open>if (!uniquePins.has(key)) { uniquePins.set(key, pin); }\<close>
\<close>

definition dedupStep :: "(string \<times> GeoPin) list \<Rightarrow> GeoPin \<Rightarrow> (string \<times> GeoPin) list" where
  "dedupStep uniquePins p =
     (let key = pinKey p
      in if map_of uniquePins key = None then uniquePins @ [(key, p)] else uniquePins)"

definition dedupePins :: "GeoPin list \<Rightarrow> GeoPin list" where
  "dedupePins allPins = map snd (foldl dedupStep [] allPins)"

text \<open>
  The second half of \<^verbatim>\<open>discoverPOIsAlongRoute\<close>: \<^verbatim>\<open>await Promise.all(samplePromises)\<close>,
  \<^verbatim>\<open>results.flat()\<close>, the deduplication, \<^verbatim>\<open>Array.from(uniquePins.values())\<close>. A sample
  is \<open>Some pins\<close> when its promise resolves and \<open>None\<close> when it rejects; one rejection
  rejects \<^verbatim>\<open>Promise.all\<close>, and the catch block returns the empty array.
\<close>

definition mergeSamples :: "GeoPin list option list \<Rightarrow> GeoPin list" where
  "mergeSamples samples =
     (case those samples of
        None \<Rightarrow> []
      | Some results \<Rightarrow> dedupePins (concat results))"

text \<open>
  The design's wording of the deduplication, to compare the loop with: walk the pins in
  order and keep a pin exactly when its key has not been seen before.
\<close>

fun keepFirst :: "string set \<Rightarrow> GeoPin list \<Rightarrow> GeoPin list" where
  "keepFirst seen [] = []"
| "keepFirst seen (p # ps) =
     (if pinKey p \<in> seen then keepFirst seen ps else p # keepFirst (insert (pinKey p) seen) ps)"

definition bigBen :: GeoPin where
  "bigBen = \<lparr>pin_id = ''osm_1'', location = \<lparr>lat = 51.5007, lng = -0.1246\<rparr>, radius = 50,
     pin_type = landmark,
     data = \<lparr>name = ''Big Ben'', description = ''Clock tower'', category = [''tourism'']\<rparr>\<rparr>"

definition bigBen_again :: GeoPin where
  "bigBen_again = bigBen\<lparr>pin_id := ''osm_2'', location := \<lparr>lat = 51.500702, lng = -0.124599\<rparr>\<rparr>"

definition londonEye :: GeoPin where
  "londonEye = \<lparr>pin_id = ''osm_3'', location = \<lparr>lat = 51.5033, lng = -0.1195\<rparr>, radius = 50,
     pin_type = landmark,
     data = \<lparr>name = ''London Eye'', description = ''Ferris wheel'', category = [''tourism'']\<rparr>\<rparr>"

text \<open>
  The number that \<^verbatim>\<open>toFixed(5)\<close> writes, in units of \<open>10^-5\<close>: the coordinate rounded to
  5 decimal places, without its sign.
\<close>

definition rounded5 :: "real \<Rightarrow> nat" where
  "rounded5 x = nat \<lfloor>\<bar>x\<bar> * 100000 + 1 / 2\<rfloor>"

text \<open>
  Two results one millionth of a degree either side of the equator, on the same meridian.
\<close>

definition justNorth :: GeoPin where
  "justNorth = \<lparr>pin_id = ''osm_4'', location = \<lparr>lat = 0.000001, lng = 10\<rparr>, radius = 50,
     pin_type = landmark,
     data = \<lparr>name = ''Equator marker'', description = ''Monument'', category = [''tourism'']\<rparr>\<rparr>"

definition justSouth :: GeoPin where
  "justSouth = justNorth\<lparr>pin_id := ''osm_5'', location := \<lparr>lat = -0.000001, lng = 10\<rparr>\<rparr>"

section \<open>Webhook delivery\<close>

text \<open>
  \<^verbatim>\<open>types/webhook.types.ts\<close>. Dates are milliseconds on a clock. The status strings
  \<^verbatim>\<open>'pending' | 'success' | 'failed'\<close> are the constructors of \<open>DeliveryStatus\<close>. The
  payload of a delivery is left out: it is built once by \<^verbatim>\<open>triggerEvent\<close> and only copied
  into the request.
\<close>

datatype DeliveryStatus = Pending | Success | Failed

record Webhook =
  webhook_id :: string
  url :: string
  events :: "string list"
  secret :: "string option"
  active :: bool
  createdAt :: nat
  lastTriggered :: "nat option"

record WebhookDelivery =
  delivery_id :: string
  webhookId :: string
  status :: DeliveryStatus
  attempts :: nat
  lastAttempt :: "nat option"
  error :: "string option"

text \<open>
  What \<^verbatim>\<open>attemptDelivery\<close> reads and writes: the webhook and the delivery record (both
  mutated in place by the source), the clock, and the delays of the
  \<^verbatim>\<open>setTimeout\<close> calls it awaits, in order.
\<close>

record DeliveryRun =
  webhook :: Webhook
  delivery :: WebhookDelivery
  now :: nat
  waits :: "nat list"

text \<open>
  \<^verbatim>\<open>attemptDelivery(webhook, delivery, maxAttempts = 3)\<close>. The receiving endpoint is the
  parameter \<open>httpPost\<close>: for the \<open>k\<close>-th attempt it gives the time the request takes and
  \<open>None\<close> when \<^verbatim>\<open>httpClient.post\<close> resolves or \<open>Some message\<close> when it rejects. (The
  request headers, with the HMAC signature when the webhook has a secret, do not influence
  the control flow and are not modelled.) The loop runs while
  \<^verbatim>\<open>delivery.attempts < maxAttempts\<close>; after the loop the status is set to failed.
\<close>

function attemptDelivery :: "(nat \<Rightarrow> nat \<times> string option) \<Rightarrow> nat \<Rightarrow> DeliveryRun \<Rightarrow> DeliveryRun" where
  "attemptDelivery httpPost maxAttempts st =
     (if attempts (delivery st) < maxAttempts then
        (let d1 = (delivery st)\<lparr>attempts := attempts (delivery st) + 1, lastAttempt := Some (now st)\<rparr>;
             t1 = now st + fst (httpPost (attempts d1))
         in case snd (httpPost (attempts d1)) of
              None \<Rightarrow>
                st\<lparr>delivery := d1\<lparr>status := Success\<rparr>,
                   webhook := (webhook st)\<lparr>lastTriggered := Some t1\<rparr>,
                   now := t1\<rparr>
            | Some errorMessage \<Rightarrow>
                (let d2 = d1\<lparr>error := Some errorMessage\<rparr>
                 in if attempts d2 < maxAttempts then
                      (let backoffMs = 2 ^ attempts d2 * 1000
                       in attemptDelivery httpPost maxAttempts
                            (st\<lparr>delivery := d2, now := t1 + backoffMs,
                                waits := waits st @ [backoffMs]\<rparr>))
                    else attemptDelivery httpPost maxAttempts (st\<lparr>delivery := d2, now := t1\<rparr>)))
      else st\<lparr>delivery := (delivery st)\<lparr>status := Failed\<rparr>\<rparr>)"
  by pat_completeness auto
termination
  by (relation "measure (\<lambda>(httpPost, maxAttempts, st). maxAttempts - attempts (delivery st))") auto

text \<open>
  \<^verbatim>\<open>deliverWebhook\<close>: a fresh delivery record (\<^verbatim>\<open>status: 'pending', attempts: 0\<close>), then
  \<^verbatim>\<open>attemptDelivery\<close> with the default of 3 attempts.
\<close>

definition deliverWebhook :: "(nat \<Rightarrow> nat \<times> string option) \<Rightarrow> string \<Rightarrow> Webhook \<Rightarrow> nat \<Rightarrow> DeliveryRun" where
  "deliverWebhook httpPost deliveryId w t0 =
     attemptDelivery httpPost 3
       \<lparr>webhook = w,
        delivery = \<lparr>delivery_id = deliveryId, webhookId = webhook_id w, status = Pending,
                    attempts = 0, lastAttempt = None, error = None\<rparr>,
        now = t0, waits = []\<rparr>"

definition hook :: Webhook where
  "hook = \<lparr>webhook_id = ''webhook_1'', url = ''https://example.org/hook'',
            events = [''route.completed''], secret = None, active = True, createdAt = 0,
            lastTriggered = None\<rparr>"

text \<open>Three endpoints: always down, up from the third request on, always up.\<close>

definition endpointDown :: "nat \<Rightarrow> nat \<times> string option" where
  "endpointDown k = (50, Some ''connect ECONNREFUSED'')"

definition endpointFailsTwice :: "nat \<Rightarrow> nat \<times> string option" where
  "endpointFailsTwice k = (if k < 3 then (50, Some ''Request failed with status code 503'') else (50, None))"

definition endpointUp :: "nat \<Rightarrow> nat \<times> string option" where
  "endpointUp k = (50, None)"

declare attemptDelivery.simps [simp del]

section \<open>Batch processing\<close>

text \<open>
  \<^verbatim>\<open>generateRouteBatch\<close> puts one task per request on a \<^verbatim>\<open>PQueue({ concurrency })\<close> and
  awaits them all. The tasks share the flag \<^verbatim>\<open>shouldStop\<close>. JavaScript runs the tasks
  interleaved on one thread, and a task yields only at its
  \<^verbatim>\<open>await routingService.generateRoute(routeReq)\<close>. So a run is a sequence of two kinds of
  steps:
  \<^item> \<open>Start\<close>: the queue starts its next task (the first one still queued), which it does
    only while fewer than \<open>concurrency\<close> tasks are in flight. The task reads the flag. If
    it is set the task returns the synthetic failure at once; otherwise it calls
    \<^verbatim>\<open>routingService.generateRoute\<close> and is in flight.
  \<^item> \<open>Settle i outcome\<close>: the routing call of the in-flight task \<open>i\<close> resolves or rejects.
    On a rejection the catch block sets the flag when \<open>failFast\<close> is on.

  The fields \<^verbatim>\<open>index\<close>, \<^verbatim>\<open>data\<close> and \<^verbatim>\<open>error\<close> of a result carry the prefix \<open>result_\<close>
  (and \<^verbatim>\<open>results\<close> of the response is \<open>route_results\<close>)
  here. \<open>calls\<close> lists, in call order, the indices of the requests that were handed to
  \<^verbatim>\<open>routingService.generateRoute\<close>.
\<close>

datatype 'r settled = Resolved 'r | Rejected string

record 'r BatchRouteResult =
  result_index :: nat
  success :: bool
  result_data :: "'r option"
  result_error :: "string option"

datatype 'r task = Queued | InFlight | Done "'r BatchRouteResult"

datatype 'r batch_event = Start | Settle nat "'r settled"

record 'r batch =
  shouldStop :: bool
  tasks :: "'r task list"
  calls :: "nat list"

definition stoppedResult :: "nat \<Rightarrow> 'r BatchRouteResult" where
  "stoppedResult i =
     \<lparr>result_index = i, success = False, result_data = None,
      result_error = Some ''Batch processing stopped due to previous error''\<rparr>"

definition newBatch :: "nat \<Rightarrow> 'r batch" where
  "newBatch n = \<lparr>shouldStop = False, tasks = replicate n Queued, calls = []\<rparr>"

definition inFlight :: "'r batch \<Rightarrow> nat" where
  "inFlight b = length (filter (\<lambda>t. t = InFlight) (tasks b))"

text \<open>The index of the first task that is still queued.\<close>

fun nextQueued :: "'r task list \<Rightarrow> nat option" where
  "nextQueued [] = None"
| "nextQueued (Queued # ts) = Some 0"
| "nextQueued (t # ts) = map_option Suc (nextQueued ts)"

text \<open>One step; \<open>None\<close> when the step cannot happen in the state.\<close>

fun batchStep :: "bool \<Rightarrow> nat \<Rightarrow> 'r batch_event \<Rightarrow> 'r batch \<Rightarrow> 'r batch option" where
  "batchStep failFast concurrency Start b =
     (if inFlight b < concurrency then
        (case nextQueued (tasks b) of
           None \<Rightarrow> None
         | Some i \<Rightarrow>
             if shouldStop b then Some (b\<lparr>tasks := (tasks b)[i := Done (stoppedResult i)]\<rparr>)
             else Some (b\<lparr>tasks := (tasks b)[i := InFlight], calls := calls b @ [i]\<rparr>))
      else None)"
| "batchStep failFast concurrency (Settle i outcome) b =
     (if i < length (tasks b) \<and> tasks b ! i = InFlight then
        (case outcome of
           Resolved routeResponse \<Rightarrow>
             Some (b\<lparr>tasks := (tasks b)[i := Done \<lparr>result_index = i, success = True,
                        result_data = Some routeResponse, result_error = None\<rparr>]\<rparr>)
         | Rejected errorMessage \<Rightarrow>
             Some (b\<lparr>shouldStop := (if failFast then True else shouldStop b),
                     tasks := (tasks b)[i := Done \<lparr>result_index = i, success = False,
                        result_data = None, result_error = Some errorMessage\<rparr>]\<rparr>))
      else None)"

fun batchRun :: "bool \<Rightarrow> nat \<Rightarrow> 'r batch_event list \<Rightarrow> 'r batch \<Rightarrow> 'r batch option" where
  "batchRun failFast concurrency [] b = Some b"
| "batchRun failFast concurrency (e # es) b =
     (case batchStep failFast concurrency e b of
        None \<Rightarrow> None
      | Some b' \<Rightarrow> batchRun failFast concurrency es b')"

text \<open>
  What \<^verbatim>\<open>generateRouteBatch\<close> returns once every task is done: the results in index
  order (\<^verbatim>\<open>Promise.all\<close>) and the two counts. \<open>None\<close> while a task is not done.
\<close>

fun taskResult :: "'r task \<Rightarrow> 'r BatchRouteResult option" where
  "taskResult (Done r) = Some r"
| "taskResult t = None"

record 'r BatchRouteResponse =
  totalRequests :: nat
  successful :: nat
  failed :: nat
  route_results :: "'r BatchRouteResult list"

definition batchResponse :: "'r batch \<Rightarrow> 'r BatchRouteResponse option" where
  "batchResponse b =
     (case those (map taskResult (tasks b)) of
        None \<Rightarrow> None
      | Some rs \<Rightarrow>
          Some \<lparr>totalRequests = length (tasks b),
                successful = length (filter success rs),
                failed = length (filter (\<lambda>r. \<not> success r) rs),
                route_results = rs\<rparr>)"

text \<open>
  An invariant of every run: a task that is still queued has not been handed to the
  routing service.
\<close>

definition queued_uncalled :: "'r batch \<Rightarrow> bool" where
  "queued_uncalled b \<longleftrightarrow> list_all (\<lambda>i. tasks b ! i \<noteq> Queued) (calls b)"

text \<open>
  The batch has finished when every task has its result (\<^verbatim>\<open>Promise.all\<close> resolves);
  \<open>pending\<close> counts the tasks that have none yet.
\<close>

definition finished :: "'r batch \<Rightarrow> bool" where
  "finished b \<longleftrightarrow> list_all (\<lambda>t. taskResult t \<noteq> None) (tasks b)"

definition pending :: "'r batch \<Rightarrow> nat" where
  "pending b = length (filter (\<lambda>t. taskResult t = None) (tasks b))"

section \<open>Cache\<close>

text \<open>
  \<^verbatim>\<open>interface CacheEntry<T> { data: T; timestamp: Date; hits: number }\<close>. A cached value
  is a \<open>'v option\<close>, \<open>None\<close> being JavaScript's \<^verbatim>\<open>undefined\<close> (which a compute function may
  return). The field \<^verbatim>\<open>data\<close> is \<open>cached_data\<close> and \<^verbatim>\<open>hits\<close> is \<open>entry_hits\<close> here.
\<close>

record 'v CacheEntry =
  cached_data :: "'v option"
  timestamp :: nat
  entry_hits :: nat

record CacheStats =
  hits :: nat
  misses :: nat
  sets :: nat
  deletes :: nat

text \<open>
  The service: the \<^verbatim>\<open>NodeCache\<close> store, the counters, and what it reads from its
  environment (the feature flag \<^verbatim>\<open>config.isFeatureEnabled('cache')\<close>, the default TTL
  \<^verbatim>\<open>stdTTL\<close> in seconds, the clock in milliseconds). node-cache keeps with every value
  the time \<open>t\<close> at which it expires, 0 for never.
\<close>

record 'v CacheService =
  enabled :: bool
  stdTTL :: nat
  clock :: nat
  store :: "string \<rightharpoonup> ('v CacheEntry \<times> nat)"
  stats :: CacheStats

definition advance :: "nat \<Rightarrow> 'v CacheService \<Rightarrow> 'v CacheService" where
  "advance ms svc = svc\<lparr>clock := clock svc + ms\<rparr>"

text \<open>
  node-cache's \<^verbatim>\<open>get\<close>: a value whose time has passed (\<^verbatim>\<open>t !== 0 && t < Date.now()\<close>) is
  deleted and not returned. Its \<^verbatim>\<open>set(key, value, ttl)\<close>: the value expires at
  \<open>now + ttl * 1000\<close>, with \<open>stdTTL\<close> for a missing \<open>ttl\<close>, and never when that is 0.
\<close>

definition nodeCache_get :: "'v CacheService \<Rightarrow> string \<Rightarrow> 'v CacheEntry option \<times> 'v CacheService" where
  "nodeCache_get svc key =
     (case store svc key of
        None \<Rightarrow> (None, svc)
      | Some (entry, t) \<Rightarrow>
          if t \<noteq> 0 \<and> t < clock svc then (None, svc\<lparr>store := (store svc)(key := None)\<rparr>)
          else (Some entry, svc))"

definition nodeCache_set :: "'v CacheService \<Rightarrow> string \<Rightarrow> 'v CacheEntry \<Rightarrow> nat option \<Rightarrow> 'v CacheService" where
  "nodeCache_set svc key entry ttl =
     (let seconds = (case ttl of None \<Rightarrow> stdTTL svc | Some s \<Rightarrow> s);
          t = (if seconds = 0 then 0 else clock svc + seconds * 1000)
      in svc\<lparr>store := (store svc)(key \<mapsto> (entry, t))\<rparr>)"

text \<open>
  \<^verbatim>\<open>get\<close>: on a hit the entry's hit count goes up and the entry is stored again with
  \<^verbatim>\<open>this.cache.set(key, entry)\<close>, that is with the default TTL from now.
\<close>

definition get :: "string \<Rightarrow> 'v CacheService \<Rightarrow> 'v option \<times> 'v CacheService" where
  "get key svc =
     (if \<not> enabled svc then (None, svc)
      else
        (case nodeCache_get svc key of
           (Some entry, svc1) \<Rightarrow>
             (let entry' = entry\<lparr>entry_hits := entry_hits entry + 1\<rparr>;
                  svc2 = svc1\<lparr>stats := (stats svc1)\<lparr>hits := hits (stats svc1) + 1\<rparr>\<rparr>
              in (cached_data entry', nodeCache_set svc2 key entry' None))
         | (None, svc1) \<Rightarrow>
             (None, svc1\<lparr>stats := (stats svc1)\<lparr>misses := misses (stats svc1) + 1\<rparr>\<rparr>)))"

text \<open>
  \<^verbatim>\<open>set\<close>: \<^verbatim>\<open>ttl ? this.cache.set(key, entry, ttl) : this.cache.set(key, entry)\<close>, so a
  \<open>ttl\<close> of 0 counts as missing.
\<close>

definition set_value :: "string \<Rightarrow> 'v option \<Rightarrow> nat option \<Rightarrow> 'v CacheService \<Rightarrow> bool \<times> 'v CacheService" where
  "set_value key v ttl svc =
     (if \<not> enabled svc then (False, svc)
      else
        (let entry = \<lparr>cached_data = v, timestamp = clock svc, entry_hits = 0\<rparr>;
             svc1 = (case ttl of
                       None \<Rightarrow> nodeCache_set svc key entry None
                     | Some s \<Rightarrow> if s \<noteq> 0 then nodeCache_set svc key entry (Some s)
                                else nodeCache_set svc key entry None)
         in (True, svc1\<lparr>stats := (stats svc1)\<lparr>sets := sets (stats svc1) + 1\<rparr>\<rparr>)))"

definition delete :: "string \<Rightarrow> 'v CacheService \<Rightarrow> bool \<times> 'v CacheService" where
  "delete key svc =
     (case store svc key of
        None \<Rightarrow> (False, svc)
      | Some e \<Rightarrow>
          (True, svc\<lparr>store := (store svc)(key := None),
                    stats := (stats svc)\<lparr>deletes := deletes (stats svc) + 1\<rparr>\<rparr>))"

definition flush :: "'v CacheService \<Rightarrow> 'v CacheService" where
  "flush svc = svc\<lparr>store := Map.empty\<rparr>"

text \<open>
  \<^verbatim>\<open>wrap(key, fn, ttl)\<close>. The compute function acts on a world \<open>'w\<close> outside the cache
  and settles (\<open>Resolved\<close> with its value, or \<open>Rejected\<close>); calling it is the only way
  \<open>wrap\<close> changes the world. \<open>wrap\<close> returns how its promise settles, the cache and the
  world. Calls are made one after the other: a second call that starts while the first
  awaits \<open>fn\<close> is outside this model.
\<close>

definition wrap ::
  "string \<Rightarrow> ('w \<Rightarrow> 'v option settled \<times> 'w) \<Rightarrow> nat option \<Rightarrow> 'v CacheService \<Rightarrow> 'w \<Rightarrow>
     'v option settled \<times> 'v CacheService \<times> 'w"
where
  "wrap key fn ttl svc w =
     (case get key svc of
        (Some cached, svc1) \<Rightarrow> (Resolved (Some cached), svc1, w)
      | (None, svc1) \<Rightarrow>
          (case fn w of
             (Rejected message, w1) \<Rightarrow> (Rejected message, svc1, w1)
           | (Resolved result, w1) \<Rightarrow> (Resolved result, snd (set_value key result ttl svc1), w1)))"

text \<open>
  Two calls with the same key, compute function and TTL, the second \<open>ms\<close> milliseconds
  after the first: both results and the world after the second call.
\<close>

definition wrapTwice ::
  "string \<Rightarrow> ('w \<Rightarrow> 'v option settled \<times> 'w) \<Rightarrow> nat option \<Rightarrow> nat \<Rightarrow> 'v CacheService \<Rightarrow> 'w \<Rightarrow>
     'v option settled \<times> 'v option settled \<times> 'w"
where
  "wrapTwice key fn ttl ms svc w =
     (case wrap key fn ttl svc w of
        (r1, svc1, w1) \<Rightarrow>
          (case wrap key fn ttl (advance ms svc1) w1 of
             (r2, svc2, w2) \<Rightarrow> (r1, r2, w2)))"

text \<open>The entry of the key has not expired.\<close>

definition live :: "string \<Rightarrow> 'v CacheService \<Rightarrow> bool" where
  "live key svc =
     (case store svc key of
        None \<Rightarrow> False
      | Some (entry, t) \<Rightarrow> t = 0 \<or> clock svc \<le> t)"

definition newCache :: "bool \<Rightarrow> nat \<Rightarrow> 'v CacheService" where
  "newCache on ttl =
     \<lparr>enabled = on, stdTTL = ttl, clock = 0, store = Map.empty,
      stats = \<lparr>hits = 0, misses = 0, sets = 0, deletes = 0\<rparr>\<rparr>"

text \<open>
  Compute functions for concrete runs. The world is the number of times the function
  has been called.
\<close>

definition expensiveFunction :: "nat \<Rightarrow> string option settled \<times> nat" where
  "expensiveFunction callCount = (Resolved (Some ''expensive-data''), callCount + 1)"

definition returnsUndefined :: "nat \<Rightarrow> string option settled \<times> nat" where
  "returnsUndefined callCount = (Resolved None, callCount + 1)"

section \<open>Input validation\<close>

text \<open>
  The arguments of the tools that accept a location, as the handlers of the server read
  them. An optional property is an \<open>option\<close>. The fields \<^verbatim>\<open>start\<close> and \<^verbatim>\<open>end\<close> of a route
  request are \<open>start_loc\<close> and \<open>end_loc\<close> here.
\<close>

record RouteRequestArgs =
  start_loc :: Location
  end_loc :: Location
  waypoints :: "Location list option"
  profile :: "string option"
  interests :: "string list option"
  bufferRadius :: "real option"

record NearbyContextArgs =
  nearby_location :: Location
  nearby_radius :: "real option"
  types :: "string list option"
  maxResults :: "real option"

record GeoPinArgs =
  geopin_location :: Location
  geopin_radius :: "real option"
  geopin_type :: string
  geopin_name :: string
  geopin_description :: string
  geopin_category :: "string list option"

record EnrichLocationArgs =
  enrich_location :: Location
  enrich_radius :: "real option"

datatype tool_args =
    GenerateRoute RouteRequestArgs
  | GetNearbyContext NearbyContextArgs
  | CreateGeopin GeoPinArgs
  | EnrichLocation EnrichLocationArgs
  | BatchGenerateRoutes "RouteRequestArgs list"
  | BatchEnrichLocations "EnrichLocationArgs list"

datatype McpError = InvalidParams string | InternalError string | MethodNotFound string

text \<open>
  The zod schemas of \<^verbatim>\<open>validation.middleware.ts\<close>, as the predicate "\<^verbatim>\<open>schema.parse\<close> does
  not throw". \<^verbatim>\<open>z.number().min(a).max(b)\<close> is \<open>inRange a b\<close>; a property with a
  \<^verbatim>\<open>.default(...)\<close> or \<^verbatim>\<open>.optional()\<close> may be missing.
\<close>

definition inRange :: "real \<Rightarrow> real \<Rightarrow> real \<Rightarrow> bool" where
  "inRange a b x \<longleftrightarrow> a \<le> x \<and> x \<le> b"

definition optionally :: "('a \<Rightarrow> bool) \<Rightarrow> 'a option \<Rightarrow> bool" where
  "optionally P x = (case x of None \<Rightarrow> True | Some y \<Rightarrow> P y)"

definition LocationSchema :: "Location \<Rightarrow> bool" where
  "LocationSchema l \<longleftrightarrow> inRange (-90) 90 (lat l) \<and> inRange (-180) 180 (lng l)"

definition pinTypes :: "string list" where
  "pinTypes = [''poi'', ''historical'', ''landmark'', ''event'', ''cultural'', ''natural'']"

definition RouteRequestSchema :: "tool_args \<Rightarrow> bool" where
  "RouteRequestSchema args =
     (case args of
        GenerateRoute r \<Rightarrow>
          LocationSchema (start_loc r) \<and> LocationSchema (end_loc r) \<and>
          optionally (list_all LocationSchema) (waypoints r) \<and>
          optionally (\<lambda>p. p \<in> set [''driving'', ''walking'', ''cycling'', ''wheelchair'']) (profile r) \<and>
          optionally (inRange 50 5000) (bufferRadius r)
      | _ \<Rightarrow> False)"

definition NearbyContextSchema :: "tool_args \<Rightarrow> bool" where
  "NearbyContextSchema args =
     (case args of
        GetNearbyContext a \<Rightarrow>
          LocationSchema (nearby_location a) \<and>
          optionally (inRange 10 10000) (nearby_radius a) \<and>
          optionally (list_all (\<lambda>t. t \<in> set pinTypes)) (types a) \<and>
          optionally (inRange 1 200) (maxResults a)
      | _ \<Rightarrow> False)"

definition GeoPinSchema :: "tool_args \<Rightarrow> bool" where
  "GeoPinSchema args =
     (case args of
        CreateGeopin a \<Rightarrow>
          LocationSchema (geopin_location a) \<and>
          optionally (inRange 10 5000) (geopin_radius a) \<and>
          geopin_type a \<in> set pinTypes \<and>
          1 \<le> length (geopin_name a) \<and> length (geopin_name a) \<le> 200 \<and>
          1 \<le> length (geopin_description a) \<and> length (geopin_description a) \<le> 2000
      | _ \<Rightarrow> False)"

definition EnrichLocationSchema :: "tool_args \<Rightarrow> bool" where
  "EnrichLocationSchema args =
     (case args of
        EnrichLocation a \<Rightarrow>
          LocationSchema (enrich_location a) \<and> optionally (inRange 10 5000) (enrich_radius a)
      | _ \<Rightarrow> False)"

text \<open>
  \<^verbatim>\<open>const schemaMap: Record<string, z.ZodSchema> = { generate_route: ..., get_nearby_context: ...,
  create_geopin: ..., enrich_location: ... }\<close>: four entries.
\<close>

definition schemaMap :: "string \<Rightarrow> (tool_args \<Rightarrow> bool) option" where
  "schemaMap toolName =
     (if toolName = ''generate_route'' then Some RouteRequestSchema
      else if toolName = ''get_nearby_context'' then Some NearbyContextSchema
      else if toolName = ''create_geopin'' then Some GeoPinSchema
      else if toolName = ''enrich_location'' then Some EnrichLocationSchema
      else None)"

text \<open>
  The defaults that a successful \<^verbatim>\<open>schema.parse\<close> fills in.
\<close>

definition withDefaults :: "tool_args \<Rightarrow> tool_args" where
  "withDefaults args =
     (case args of
        GenerateRoute r \<Rightarrow>
          GenerateRoute (r\<lparr>profile := Some (case profile r of None \<Rightarrow> ''driving'' | Some p \<Rightarrow> p),
                           bufferRadius := Some (case bufferRadius r of None \<Rightarrow> 500 | Some b \<Rightarrow> b)\<rparr>)
      | GetNearbyContext a \<Rightarrow>
          GetNearbyContext (a\<lparr>nearby_radius := Some (case nearby_radius a of None \<Rightarrow> 1000 | Some x \<Rightarrow> x),
                              maxResults := Some (case maxResults a of None \<Rightarrow> 50 | Some x \<Rightarrow> x)\<rparr>)
      | CreateGeopin a \<Rightarrow>
          CreateGeopin (a\<lparr>geopin_radius := Some (case geopin_radius a of None \<Rightarrow> 100 | Some x \<Rightarrow> x)\<rparr>)
      | EnrichLocation a \<Rightarrow>
          EnrichLocation (a\<lparr>enrich_radius := Some (case enrich_radius a of None \<Rightarrow> 500 | Some x \<Rightarrow> x)\<rparr>)
      | _ \<Rightarrow> args)"

text \<open>
  \<^verbatim>\<open>validateToolInput\<close>: a tool without a schema gets a warning in the log and its
  arguments back as they came; a \<^verbatim>\<open>ZodError\<close> becomes an \<^verbatim>\<open>McpError\<close> with the code
  \<^verbatim>\<open>InvalidParams\<close>.
\<close>

definition validateToolInput :: "string \<Rightarrow> tool_args \<Rightarrow> McpError + tool_args" where
  "validateToolInput toolName args =
     (case schemaMap toolName of
        None \<Rightarrow> Inr args
      | Some schema \<Rightarrow>
          if schema args then Inr (withDefaults args) else Inl (InvalidParams toolName))"

text \<open>
  What the handlers do with the locations of their arguments. Each list holds the
  locations that the handler hands to the spatial index or to a provider:
  \<^item> \<^verbatim>\<open>handleGenerateRoute\<close>: start, waypoints and end go to the routing provider
    (\<^verbatim>\<open>fetchRoute\<close>);
  \<^item> \<^verbatim>\<open>handleGetNearbyContext\<close>: \<^verbatim>\<open>spatialIndex.queryByRadius(args.location, ...)\<close>;
  \<^item> \<^verbatim>\<open>handleCreateGeoPin\<close>: \<^verbatim>\<open>spatialIndex.addPin\<close> of a pin at \<^verbatim>\<open>args.location\<close>;
  \<^item> \<^verbatim>\<open>handleEnrichLocation\<close>: \<^verbatim>\<open>osmService.fetchPOIsNearLocation(args.location, ...)\<close>;
  \<^item> the batch handlers: the same per request (for a batch with \<open>failFast\<close>, of the
    requests that are started).
\<close>

definition routeLocations :: "RouteRequestArgs \<Rightarrow> Location list" where
  "routeLocations r =
     start_loc r # (case waypoints r of None \<Rightarrow> [] | Some ws \<Rightarrow> ws) @ [end_loc r]"

fun locationsUsed :: "tool_args \<Rightarrow> Location list" where
  "locationsUsed (GenerateRoute r) = routeLocations r"
| "locationsUsed (GetNearbyContext a) = [nearby_location a]"
| "locationsUsed (CreateGeopin a) = [geopin_location a]"
| "locationsUsed (EnrichLocation a) = [enrich_location a]"
| "locationsUsed (BatchGenerateRoutes rs) = concat (map routeLocations rs)"
| "locationsUsed (BatchEnrichLocations ls) = map enrich_location ls"

fun argsOf :: "tool_args \<Rightarrow> string" where
  "argsOf (GenerateRoute r) = ''generate_route''"
| "argsOf (GetNearbyContext a) = ''get_nearby_context''"
| "argsOf (CreateGeopin a) = ''create_geopin''"
| "argsOf (EnrichLocation a) = ''enrich_location''"
| "argsOf (BatchGenerateRoutes rs) = ''batch_generate_routes''"
| "argsOf (BatchEnrichLocations ls) = ''batch_enrich_locations''"

text \<open>
  The \<^verbatim>\<open>CallToolRequestSchema\<close> handler for these six tools:
  \<^verbatim>\<open>composeMiddleware(name, handler)(request.params.arguments)\<close>, of which the validation
  step and the handler are modelled. The result is the error thrown to the caller, or the
  locations the handler used. Arguments of another tool's shape make a handler without
  schema throw, which it reports as an \<^verbatim>\<open>InternalError\<close>.
\<close>

definition callTool :: "string \<Rightarrow> tool_args \<Rightarrow> McpError + Location list" where
  "callTool toolName args =
     (if toolName \<in> set [''generate_route'', ''get_nearby_context'', ''create_geopin'',
                          ''enrich_location'', ''batch_generate_routes'', ''batch_enrich_locations'']
      then
        (case validateToolInput toolName args of
           Inl e \<Rightarrow> Inl e
         | Inr validated \<Rightarrow>
             if argsOf validated = toolName then Inr (locationsUsed validated)
             else Inl (InternalError toolName))
      else Inl (MethodNotFound toolName))"

definition northOfPole :: Location where
  "northOfPole = \<lparr>lat = 91, lng = 0\<rparr>"

section \<open>Properties\<close>

subsection \<open>Sampling a path\<close>


lemma providerCalls_short:
  assumes "0 < L" "L \<le> 10000"
  shows "providerCalls L = 11"
proof -
  have i: "sampleInterval L = L / 10"
    using assms by (simp add: sampleInterval_def min_def)
  have "L / (L / 10) = 10" using assms by simp
  then have "numSamples L = Some 10"
    unfolding numSamples_def i using assms by simp
  then show ?thesis
    by (simp add: providerCalls_def sampleDistances_def)
qed

lemma providerCalls_long:
  assumes "10000 \<le> L"
  shows "providerCalls L = nat \<lfloor>L / 1000\<rfloor> + 1"
proof -
  have i: "sampleInterval L = 1000"
    using assms by (simp add: sampleInterval_def min_def)
  have "0 \<le> \<lfloor>L / 1000\<rfloor>" using assms by simp
  then show ?thesis
    using i by (simp add: providerCalls_def sampleDistances_def numSamples_def nat_add_distrib)
qed

text \<open>
  C5 (as amended). The sample interval is \<open>min(1000 m, length / 10)\<close>. A route of positive
  length up to 10 km is sampled at exactly 11 points (\<open>i = 0, \<dots>, 10\<close>), one provider call
  each. A route of 10 km or more is sampled every 1000 m, which makes
  \<open>floor(length / 1000) + 1\<close> provider calls: the number of calls grows with the length of
  the route.
\<close>

theorem C5_sampling:
  "sampleInterval L = min 1000 (L / 10) \<and>
   (0 < L \<and> L \<le> 10000 \<longrightarrow> providerCalls L = 11) \<and>
   (10000 \<le> L \<longrightarrow> sampleInterval L = 1000 \<and> providerCalls L = nat \<lfloor>L / 1000\<rfloor> + 1)"
  using providerCalls_short [of L] providerCalls_long [of L]
  by (simp add: sampleInterval_def)

theorem C5_sampling_witness:
  "sampleInterval 2500 = 250 \<and> providerCalls 2500 = 11 \<and>
   sampleInterval 50000 = 1000 \<and> providerCalls 50000 = 51"
  using C5_sampling [of 2500] C5_sampling [of 50000] by simp

text \<open>
  The claim as stated says the number of provider calls is bounded independently of the
  length of the route. No bound exists: a route of \<open>1000 * (B + 1)\<close> meters makes more than
  \<open>B\<close> calls; a 2000 km route makes 2001.
\<close>

theorem C5_calls_unbounded:
  "providerCalls 2000000 = 2001 \<and> \<not> (\<exists>B. \<forall>L. providerCalls L \<le> B)"
proof
  show "providerCalls 2000000 = 2001"
    using providerCalls_long [of 2000000] by simp
next
  show "\<not> (\<exists>B. \<forall>L. providerCalls L \<le> B)"
  proof
    assume "\<exists>B. \<forall>L. providerCalls L \<le> B"
    then obtain B where B: "\<forall>L. providerCalls L \<le> B" ..
    let ?L = "1000 * (real B + 10)"
    have "10000 \<le> ?L" by simp
    then have "providerCalls ?L = nat \<lfloor>?L / 1000\<rfloor> + 1"
      by (rule providerCalls_long)
    moreover have "?L / 1000 = of_int (int B + 10)"
      by simp
    then have "\<lfloor>?L / 1000\<rfloor> = int B + 10"
      by (simp only: floor_of_int)
    ultimately have "providerCalls ?L = B + 11" by simp
    with B show False by (metis add_le_same_cancel1 not_numeral_le_zero)
  qed
qed

subsection \<open>Spatial index\<close>

lemma totalPins_getStats: "totalPins (getStats svc) = length (DAList.impl_of (pinMap svc))"
  by (simp add: getStats_def)

lemma indexSize_getStats: "indexSize (getStats svc) = length (index svc)"
  by (simp add: getStats_def rbush_all_def)

lemma length_update_fresh:
  "k \<notin> fst ` set xs \<Longrightarrow> length (AList.update k v xs) = Suc (length xs)"
  by (induction xs) auto

lemma delete_update_fresh:
  "k \<notin> fst ` set xs \<Longrightarrow> AList.delete k (AList.update k v xs) = xs"
  by (induction xs) auto

lemma lookup_None_fresh:
  "DAList.lookup m k = None \<Longrightarrow> k \<notin> fst ` set (DAList.impl_of m)"
  by (simp add: DAList.lookup.rep_eq map_of_eq_None_iff)

lemma delete_update_alist:
  "DAList.lookup m k = None \<Longrightarrow> DAList.delete k (DAList.update k v m) = m"
  by (simp add: alist_eq_iff DAList.delete.rep_eq DAList.update.rep_eq
      delete_update_fresh lookup_None_fresh)

lemma removePin_absent:
  "DAList.lookup (pinMap svc) i = None \<Longrightarrow> removePin g i svc = (False, svc)"
  by (simp add: removePin_def)

lemma addPin_failed:
  "spatialItemOf g p = None \<Longrightarrow> addPin g p svc = svc"
  by (simp add: addPin_def)

lemma pinMap_addPin:
  "spatialItemOf g p = Some it \<Longrightarrow> pinMap (addPin g p svc) = DAList.update (pin_id p) p (pinMap svc)"
  by (simp add: addPin_def)

lemma pinMap_remove_add:
  assumes "DAList.lookup (pinMap svc) (pin_id p) = None"
  shows "pinMap (snd (removePin g (pin_id p) (addPin g p svc))) = pinMap svc"
proof (cases "spatialItemOf g p")
  case None
  then show ?thesis
    using assms by (simp add: addPin_failed removePin_absent)
next
  case (Some it)
  then show ?thesis
    using assms by (simp add: addPin_def removePin_def delete_update_alist)
qed

text \<open>Removal by id from a tree whose ids are distinct removes the entry with that id.\<close>

lemma rbush_remove_by_id:
  assumes "distinct (map (\<lambda>x. pin_id (pin x)) xs)" "x \<in> set xs"
    "pin_id (pin probe) = pin_id (pin x)"
  shows "rbush_remove probe (\<lambda>a b. pin_id (pin a) = pin_id (pin b)) xs = remove1 x xs"
  using assms
proof (induction xs)
  case Nil
  then show ?case by simp
next
  case (Cons y ys)
  show ?case
  proof (cases "y = x")
    case True
    with Cons.prems show ?thesis by simp
  next
    case False
    with Cons.prems have xin: "x \<in> set ys" by simp
    from Cons.prems(1) have "pin_id (pin y) \<notin> (\<lambda>x. pin_id (pin x)) ` set ys" by simp
    with xin have "pin_id (pin y) \<noteq> pin_id (pin x)" by force
    with Cons.prems Cons.IH xin False show ?thesis by simp
  qed
qed

lemma rbush_remove_absent:
  "\<forall>x \<in> set xs. \<not> eq probe x \<Longrightarrow> rbush_remove probe eq xs = xs"
  by (induction xs) auto

lemma consistent_distinct_ids:
  assumes "consistent g svc"
  shows "distinct (map (\<lambda>x. pin_id (pin x)) (index svc))"
proof -
  have "mset (map fst (DAList.impl_of (pinMap svc))) =
        mset (map fst (map (\<lambda>x. (pin_id (pin x), pin x)) (index svc)))"
    using assms unfolding consistent_def by (metis mset_map)
  then have "mset (map fst (DAList.impl_of (pinMap svc))) = mset (map (\<lambda>x. pin_id (pin x)) (index svc))"
    by (simp add: comp_def)
  moreover have "distinct (map fst (DAList.impl_of (pinMap svc)))" by simp
  ultimately show ?thesis by (metis mset_eq_imp_distinct_iff)
qed

lemma consistent_lookup:
  assumes "consistent g svc" "DAList.lookup (pinMap svc) i = Some p"
  shows "pin_id p = i \<and> (\<exists>x \<in> set (index svc). pin x = p \<and> spatialItemOf g p = Some x)"
proof -
  have "(i, p) \<in> set (DAList.impl_of (pinMap svc))"
    using assms(2) by (auto simp: DAList.lookup.rep_eq dest: map_of_SomeD)
  moreover have "set (DAList.impl_of (pinMap svc)) = set (map (\<lambda>x. (pin_id (pin x), pin x)) (index svc))"
    using assms(1) unfolding consistent_def by (blast dest: mset_eq_setD)
  ultimately have "(i, p) \<in> (\<lambda>x. (pin_id (pin x), pin x)) ` set (index svc)"
    by simp
  then obtain x where x: "x \<in> set (index svc)" "pin_id (pin x) = i" "pin x = p"
    by blast
  moreover have "spatialItemOf g (pin x) = Some x"
    using assms(1) x(1) unfolding consistent_def index_built_def by (simp add: list_all_iff)
  ultimately show ?thesis by blast
qed

lemma consistent_new: "consistent g newSpatialIndexService"
  by (simp add: consistent_def index_built_def newSpatialIndexService_def DAList.empty.rep_eq)

lemma consistent_counts:
  assumes "consistent g svc"
  shows "totalPins (getStats svc) = indexSize (getStats svc)"
proof -
  have "size (mset (DAList.impl_of (pinMap svc))) =
        size (mset (map (\<lambda>x. (pin_id (pin x), pin x)) (index svc)))"
    using assms unfolding consistent_def by simp
  then show ?thesis
    by (simp add: totalPins_getStats indexSize_getStats)
qed

lemma update_fresh_append:
  "k \<notin> fst ` set xs \<Longrightarrow> AList.update k v xs = xs @ [(k, v)]"
  by (induction xs) auto

lemma consistent_addPin:
  assumes "consistent g svc" "DAList.lookup (pinMap svc) (pin_id p) = None"
  shows "consistent g (addPin g p svc)"
proof (cases "spatialItemOf g p")
  case None
  then show ?thesis using assms(1) by (simp add: addPin_failed)
next
  case (Some it)
  then have pit: "pin it = p"
    by (auto simp: spatialItemOf_def split: option.splits prod.splits)
  have "DAList.impl_of (DAList.update (pin_id p) p (pinMap svc)) =
        DAList.impl_of (pinMap svc) @ [(pin_id p, p)]"
    using assms(2) by (simp add: DAList.update.rep_eq update_fresh_append lookup_None_fresh)
  then show ?thesis
    using assms(1) Some pit
    by (simp add: consistent_def index_built_def addPin_def rbush_insert_def)
qed

lemma mset_delete_key:
  assumes "distinct (map fst xs)" "(k, v) \<in> set xs"
  shows "mset (AList.delete k xs) = mset xs - {#(k, v)#}"
  using assms
proof (induction xs)
  case Nil
  then show ?case by simp
next
  case (Cons y ys)
  show ?case
  proof (cases "fst y = k")
    case True
    with Cons.prems have "k \<notin> fst ` set ys" by auto
    then have "AList.delete k ys = ys"
      by (induction ys) auto
    moreover from True Cons.prems have "y = (k, v)"
      by (cases y) (auto simp: image_iff)
    ultimately show ?thesis by simp
  next
    case False
    with Cons.prems have "(k, v) \<in> set ys" by auto
    with Cons False show ?thesis
      by (cases y) (auto simp: insert_DiffM2)
  qed
qed

text \<open>
  What \<^verbatim>\<open>removePin\<close> does to a consistent service that tracks the id: it reports
  success, deletes the entry of that marker from the tree and the id from the table.
\<close>

lemma removePin_consistent:
  assumes c: "consistent g svc" and l: "DAList.lookup (pinMap svc) i = Some p"
  obtains it where
    "spatialItemOf g p = Some it" "it \<in> set (index svc)"
    "removePin g i svc =
       (True, svc\<lparr>index := remove1 it (index svc), pinMap := DAList.delete i (pinMap svc)\<rparr>)"
proof -
  from consistent_lookup [OF c l] obtain x where
    x: "pin_id p = i" "x \<in> set (index svc)" "pin x = p" "spatialItemOf g p = Some x"
    by auto
  have "rbush_remove x (\<lambda>a b. pin_id (pin a) = pin_id (pin b)) (index svc) = remove1 x (index svc)"
    using consistent_distinct_ids [OF c] x(2) by (rule rbush_remove_by_id) simp
  then have "removePin g i svc =
       (True, svc\<lparr>index := remove1 x (index svc), pinMap := DAList.delete i (pinMap svc)\<rparr>)"
    using l x(4) by (simp add: removePin_def)
  with x(4) x(2) show thesis by (rule that)
qed

lemma consistent_removePin:
  assumes "consistent g svc"
  shows "consistent g (snd (removePin g i svc))"
proof (cases "DAList.lookup (pinMap svc) i")
  case None
  then show ?thesis using assms by (simp add: removePin_absent)
next
  case (Some p)
  from removePin_consistent [OF assms Some] obtain it where
    it: "spatialItemOf g p = Some it" "it \<in> set (index svc)"
    "removePin g i svc =
       (True, svc\<lparr>index := remove1 it (index svc), pinMap := DAList.delete i (pinMap svc)\<rparr>)"
    by blast
  from consistent_lookup [OF assms Some] have pid: "pin_id p = i" by simp
  from it(1) have pit: "pin it = p"
    by (auto simp: spatialItemOf_def split: option.splits prod.splits)
  have ip: "(i, p) \<in> set (DAList.impl_of (pinMap svc))"
    using Some by (auto simp: DAList.lookup.rep_eq dest: map_of_SomeD)
  have "mset (DAList.impl_of (DAList.delete i (pinMap svc))) =
        mset (DAList.impl_of (pinMap svc)) - {#(i, p)#}"
    using ip by (simp add: DAList.delete.rep_eq mset_delete_key)
  moreover have "mset (map (\<lambda>x. (pin_id (pin x), pin x)) (remove1 it (index svc))) =
        mset (map (\<lambda>x. (pin_id (pin x), pin x)) (index svc)) - {#(i, p)#}"
    using it(2) pit pid by (simp add: image_mset_Diff)
  moreover have "list_all (\<lambda>x. spatialItemOf g (pin x) = Some x) (remove1 it (index svc))"
    using assms unfolding consistent_def index_built_def
    by (metis (no_types, lifting) list_all_iff notin_set_remove1)
  ultimately show ?thesis
    using assms it(3) by (simp add: consistent_def index_built_def)
qed

text \<open>
  Without an insert of a tracked id the service stays consistent, and the two counts of
  the statistics match after every sequence of inserts and removes.
\<close>

lemma consistent_ops:
  "consistent g svc \<Longrightarrow> no_reinsert g svc ops \<Longrightarrow> consistent g (foldl (applyOp g) svc ops)"
proof (induction ops arbitrary: svc)
  case Nil
  then show ?case by simp
next
  case (Cons op ops)
  show ?case
  proof (cases op)
    case (Insert p)
    with Cons.prems have "consistent g (addPin g p svc)"
      by (simp add: consistent_addPin getPinById_def)
    with Cons Insert show ?thesis by simp
  next
    case (Remove i)
    from Cons.prems(1) have "consistent g (snd (removePin g i svc))"
      by (rule consistent_removePin)
    with Cons Remove show ?thesis by simp
  qed
qed

lemma counts_match_without_reinsert:
  assumes "no_reinsert g newSpatialIndexService ops"
  shows "totalPins (getStats (foldl (applyOp g) newSpatialIndexService ops)) =
         indexSize (getStats (foldl (applyOp g) newSpatialIndexService ops))"
  using consistent_ops [OF consistent_new assms] by (rule consistent_counts)

text \<open>The equations that run the service on concrete markers in the plane geometry.\<close>

lemmas run_simps =
  addPin_def removePin_def spatialItemOf_def plane_def testPin_def newSpatialIndexService_def
  getStats_def rbush_insert_def rbush_all_def rbush_search_def intersects_def
  DAList.update.rep_eq DAList.empty.rep_eq DAList.delete.rep_eq DAList.lookup.rep_eq
  pinA_def pinB_def pinC_def pinFar_def pinA_moved_def queryByRadius_def getPinById_def

text \<open>
  C7 (as amended). For every marker whose id is not tracked, inserting the marker and then
  removing its id returns \<open>totalPins\<close> to its value before the insert; removing an id that
  is not tracked returns false and leaves the statistics unchanged.
\<close>

theorem C7_insert_then_remove:
  "(DAList.lookup (pinMap svc) (pin_id p) = None \<longrightarrow>
      totalPins (getStats (snd (removePin g (pin_id p) (addPin g p svc)))) = totalPins (getStats svc)) \<and>
   (DAList.lookup (pinMap svc) i = None \<longrightarrow>
      fst (removePin g i svc) = False \<and> getStats (snd (removePin g i svc)) = getStats svc)"
  by (simp add: pinMap_remove_add totalPins_getStats removePin_absent)

theorem C7_insert_then_remove_witness:
  "DAList.lookup (pinMap (addPin plane pinA newSpatialIndexService)) (pin_id pinB) = None \<and>
   totalPins (getStats (addPin plane pinA newSpatialIndexService)) = 1 \<and>
   totalPins (getStats (addPin plane pinB (addPin plane pinA newSpatialIndexService))) = 2 \<and>
   totalPins (getStats (snd (removePin plane (pin_id pinB)
      (addPin plane pinB (addPin plane pinA newSpatialIndexService))))) = 1 \<and>
   DAList.lookup (pinMap (addPin plane pinA newSpatialIndexService)) ''non-existent'' = None \<and>
   fst (removePin plane ''non-existent'' (addPin plane pinA newSpatialIndexService)) = False"
  using C7_insert_then_remove [of "addPin plane pinA newSpatialIndexService" pinB plane "''non-existent''"]
  by (simp add: run_simps)

text \<open>
  The claim as stated covers every marker id. For an id that is already tracked the insert
  replaces the table entry, and the remove then deletes it: \<open>totalPins\<close> ends one below
  its value before the insert.
\<close>

theorem C7_reinsert_counterexample:
  "totalPins (getStats (addPin plane pinA newSpatialIndexService)) = 1 \<and>
   totalPins (getStats (snd (removePin plane (pin_id pinA)
      (addPin plane pinA (addPin plane pinA newSpatialIndexService))))) = 0"
  by (simp add: run_simps)

text \<open>
  C8. The count of tracked markers and the count of tree entries should match after every
  sequence of inserts and removes. \<^verbatim>\<open>addPin\<close> of a marker whose id is already
  tracked adds a second tree entry and replaces the table entry, so the counts differ:
  here 1 tracked marker and 2 tree entries. (\<open>counts_match_without_reinsert\<close> shows that
  the counts do match as long as no tracked id is inserted again.)
\<close>

theorem C8_counts_after_reinsert:
  "getStats (addPin plane pinA (addPin plane pinA newSpatialIndexService)) =
     \<lparr>totalPins = 1, indexSize = 2\<rparr>"
  by (simp add: run_simps)

text \<open>
  C9 (as amended). \<^verbatim>\<open>removePin\<close> looks the marker up by id, computes the marker's box
  afresh from its location and radius (no box is retained from the insertion) and asks
  the tree to remove the first entry with the same marker id. In a consistent index
  (reached by removes and by inserts of ids that are not tracked), removing the id of a
  tracked marker returns true, deletes exactly the entry of that marker from the tree
  and the id from the lookup table, and leaves a consistent index.
\<close>

theorem C9_remove_tracked:
  assumes "consistent g svc" and "DAList.lookup (pinMap svc) i = Some p"
  shows "\<exists>it. spatialItemOf g p = Some it \<and> it \<in> set (index svc) \<and>
           removePin g i svc =
             (True, svc\<lparr>index := remove1 it (index svc), pinMap := DAList.delete i (pinMap svc)\<rparr>) \<and>
           getPinById (snd (removePin g i svc)) i = None \<and>
           consistent g (snd (removePin g i svc))"
proof -
  from removePin_consistent [OF assms] obtain it where
    it: "spatialItemOf g p = Some it" "it \<in> set (index svc)"
    "removePin g i svc =
       (True, svc\<lparr>index := remove1 it (index svc), pinMap := DAList.delete i (pinMap svc)\<rparr>)"
    by blast
  have "getPinById (snd (removePin g i svc)) i = None"
    using it(3) by (simp add: getPinById_def)
  moreover have "consistent g (snd (removePin g i svc))"
    using assms(1) by (rule consistent_removePin)
  ultimately show ?thesis using it by blast
qed

theorem C9_remove_tracked_witness:
  "consistent plane (addPin plane pinB (addPin plane pinA newSpatialIndexService)) \<and>
   DAList.lookup (pinMap (addPin plane pinB (addPin plane pinA newSpatialIndexService))) ''pin1''
     = Some pinA \<and>
   fst (removePin plane ''pin1'' (addPin plane pinB (addPin plane pinA newSpatialIndexService))) \<and>
   map pin (index (snd (removePin plane ''pin1''
     (addPin plane pinB (addPin plane pinA newSpatialIndexService))))) = [pinB] \<and>
   getPinById (snd (removePin plane ''pin1''
     (addPin plane pinB (addPin plane pinA newSpatialIndexService)))) ''pin1'' = None"
proof -
  let ?svc = "addPin plane pinB (addPin plane pinA newSpatialIndexService)"
  have c: "consistent plane ?svc"
    by (intro consistent_addPin consistent_new) (simp_all add: run_simps)
  have l: "DAList.lookup (pinMap ?svc) ''pin1'' = Some pinA"
    by (simp add: run_simps)
  from C9_remove_tracked [OF c l] have "getPinById (snd (removePin plane ''pin1'' ?svc)) ''pin1'' = None"
    by blast
  moreover have "fst (removePin plane ''pin1'' ?svc)"
    by (simp add: run_simps)
  moreover have "map pin (index (snd (removePin plane ''pin1'' ?svc))) = [pinB]"
    by (simp add: run_simps)
  ultimately show ?thesis using c l by blast
qed

text \<open>
  The claim as stated has the removal use the box retained from the insertion and delete
  exactly the entry of the marker. The marker \<open>pin1\<close> is inserted at (0, 0) and again,
  moved, at (500, 500). The tree then holds two entries with stored boxes starting at
  \<open>minX = -100\<close> and \<open>minX = 400\<close>, and the table tracks the moved marker. \<^verbatim>\<open>removePin\<close>
  computes the box of the tracked marker afresh (\<open>minX = 400\<close>), returns true, and the
  entry that leaves the tree is the first one with that id, the one stored with
  \<open>minX = -100\<close>: the entry of the tracked marker is still in the tree and a radius query
  still returns the marker that was removed.
\<close>

theorem C9_recomputed_box_counterexample:
  "getPinById (addPin plane pinA_moved (addPin plane pinA newSpatialIndexService)) ''pin1''
     = Some pinA_moved \<and>
   map minX (index (addPin plane pinA_moved (addPin plane pinA newSpatialIndexService)))
     = [-100, 400] \<and>
   map_option minX (spatialItemOf plane pinA_moved) = Some 400 \<and>
   fst (removePin plane ''pin1'' (addPin plane pinA_moved (addPin plane pinA newSpatialIndexService))) \<and>
   index (snd (removePin plane ''pin1''
      (addPin plane pinA_moved (addPin plane pinA newSpatialIndexService))))
     = [\<lparr>minX = 400, minY = 400, maxX = 600, maxY = 600, pin = pinA_moved\<rparr>] \<and>
   queryByRadius plane \<lparr>lat = 500, lng = 500\<rparr> 50 (snd (removePin plane ''pin1''
      (addPin plane pinA_moved (addPin plane pinA newSpatialIndexService))))
     = [pinA_moved]"
  by (simp add: run_simps)

text \<open>
  Every index that inserts and removes can reach, with or without repeated ids, holds
  only entries that \<^verbatim>\<open>addPin\<close> built.
\<close>

lemma set_rbush_remove: "set (rbush_remove probe eq xs) \<subseteq> set xs"
  by (induction xs) auto

lemma index_built_addPin: "index_built g svc \<Longrightarrow> index_built g (addPin g p svc)"
proof (cases "spatialItemOf g p")
  case None
  assume "index_built g svc"
  with None show ?thesis by (simp add: addPin_failed)
next
  case (Some it)
  assume b: "index_built g svc"
  from Some have "pin it = p"
    by (auto simp: spatialItemOf_def split: option.splits prod.splits)
  with Some b show ?thesis
    by (simp add: index_built_def addPin_def rbush_insert_def)
qed

lemma index_built_removePin: "index_built g svc \<Longrightarrow> index_built g (snd (removePin g i svc))"
proof -
  assume b: "index_built g svc"
  have "set (index (snd (removePin g i svc))) \<subseteq> set (index svc)"
    using set_rbush_remove by (auto simp: removePin_def split: option.splits)
  with b show ?thesis
    by (auto simp: index_built_def list_all_iff)
qed

lemma index_built_ops:
  "index_built g svc \<Longrightarrow> index_built g (foldl (applyOp g) svc ops)"
proof (induction ops arbitrary: svc)
  case Nil
  then show ?case by simp
next
  case (Cons op ops)
  then show ?case
    by (cases op) (simp_all add: index_built_addPin index_built_removePin)
qed

lemma index_built_reachable:
  "index_built g (foldl (applyOp g) newSpatialIndexService ops)"
  by (rule index_built_ops) (simp add: index_built_def newSpatialIndexService_def)

text \<open>The chain of \<^verbatim>\<open>queryByRadius\<close> as one filter over the tree entries, then the sort.\<close>

lemma queryByRadius_pairs:
  assumes box: "bufferBBox g loc r = Some (w, s, e, n)"
  shows "queryByRadius g loc r svc =
           map fst (sort_key snd
             (map (\<lambda>x. (pin x, distance g loc (location (pin x))))
               (filter (\<lambda>x. intersects \<lparr>minX = w, minY = s, maxX = e, maxY = n\<rparr> x \<and>
                   distance g loc (location (pin x)) \<le> r) (index svc))))"
  using box by (simp add: queryByRadius_def rbush_search_def filter_map comp_def)

lemma map_fst_sort_key_dist:
  "map f (map fst (sort_key snd (map (\<lambda>x. (h x, f (h x))) xs))) =
   map snd (sort_key snd (map (\<lambda>x. (h x, f (h x))) xs))"
proof -
  have "\<forall>z \<in> set (sort_key snd (map (\<lambda>x. (h x, f (h x))) xs)). f (fst z) = snd z"
    by auto
  then show ?thesis by simp
qed

lemmas dateline_simps =
  turfAtDateline_def dateline_def pinWest_def pinEast_def testPin_def addPin_def
  spatialItemOf_def newSpatialIndexService_def rbush_insert_def rbush_search_def
  intersects_def queryByRadius_def

text \<open>
  What \<^verbatim>\<open>queryByRadius\<close> computes, whatever the geometry engine does: for every set of
  indexed markers and every query location and radius whose buffer box can be computed,
  it returns exactly those indexed markers whose stored box intersects the buffer box of
  the query and whose distance to the query location is at most the radius (each as often
  as it is indexed), sorted ascending by that distance. When the stored box of every
  indexed marker within the radius intersects the box of the query, these are exactly the
  indexed markers within the radius.
\<close>

lemma queryByRadius_box_and_distance:
  assumes "bufferBBox g loc r = Some (w, s, e, n)"
  shows "mset (queryByRadius g loc r svc) =
           mset (map pin (filter (\<lambda>x. intersects \<lparr>minX = w, minY = s, maxX = e, maxY = n\<rparr> x \<and>
                   distance g loc (location (pin x)) \<le> r) (index svc))) \<and>
         sorted (map (\<lambda>p. distance g loc (location p)) (queryByRadius g loc r svc)) \<and>
         (list_all (\<lambda>x. distance g loc (location (pin x)) \<le> r \<longrightarrow>
              intersects \<lparr>minX = w, minY = s, maxX = e, maxY = n\<rparr> x) (index svc) \<longrightarrow>
            mset (queryByRadius g loc r svc) =
              mset (filter (\<lambda>p. distance g loc (location p) \<le> r) (map pin (index svc))))"
proof -
  let ?d = "\<lambda>p. distance g loc (location p)"
  let ?B = "\<lparr>minX = w, minY = s, maxX = e, maxY = n\<rparr>"
  let ?xs = "filter (\<lambda>x. intersects ?B x \<and> ?d (pin x) \<le> r) (index svc)"
  let ?ys = "map (\<lambda>x. (pin x, ?d (pin x))) ?xs"
  have q: "queryByRadius g loc r svc = map fst (sort_key snd ?ys)"
    using assms by (rule queryByRadius_pairs)
  have "mset (sort_key snd ?ys) = mset ?ys"
    by (rule mset_sort)
  then have "image_mset fst (mset (sort_key snd ?ys)) = image_mset fst (mset ?ys)"
    by (rule arg_cong)
  then have "mset (map fst (sort_key snd ?ys)) = mset (map fst ?ys)"
    by (simp only: mset_map)
  also have "map fst ?ys = map pin ?xs"
    by (simp add: comp_def)
  finally have members: "mset (queryByRadius g loc r svc) = mset (map pin ?xs)"
    by (simp only: q)
  have ds: "map ?d (map fst (sort_key snd ?ys)) = map snd (sort_key snd ?ys)"
    by (rule map_fst_sort_key_dist)
  have "sorted (map snd (sort_key snd ?ys))"
    by (rule sorted_sort_key)
  then have "sorted (map ?d (map fst (sort_key snd ?ys)))"
    by (simp only: ds)
  then have ordered: "sorted (map ?d (queryByRadius g loc r svc))"
    by (simp only: q)
  have exact: "mset (queryByRadius g loc r svc) = mset (filter (\<lambda>p. ?d p \<le> r) (map pin (index svc)))"
    if cover: "list_all (\<lambda>x. ?d (pin x) \<le> r \<longrightarrow> intersects ?B x) (index svc)"
  proof -
    have "?xs = filter (\<lambda>x. ?d (pin x) \<le> r) (index svc)"
    proof (rule filter_cong)
      fix x assume "x \<in> set (index svc)"
      with cover show "(intersects ?B x \<and> ?d (pin x) \<le> r) = (?d (pin x) \<le> r)"
        by (auto simp: list_all_iff)
    qed simp
    then have "map pin ?xs = filter (\<lambda>p. ?d p \<le> r) (map pin (index svc))"
      by (simp add: filter_map comp_def)
    with members show ?thesis by simp
  qed
  from members ordered exact show ?thesis by blast
qed

text \<open>Away from the 180th meridian: four markers in the plane, three of them within 200.\<close>

lemma queryByRadius_plane_example:
  "bufferBBox plane \<lparr>lat = 0, lng = 0\<rparr> 200 = Some (-200, -200, 200, 200) \<and>
   queryByRadius plane \<lparr>lat = 0, lng = 0\<rparr> 200
     (addPin plane pinFar (addPin plane pinC (addPin plane pinB (addPin plane pinA newSpatialIndexService))))
     = [pinA, pinB, pinC] \<and>
   list_all (\<lambda>x. distance plane \<lparr>lat = 0, lng = 0\<rparr> (location (pin x)) \<le> 200 \<longrightarrow>
       intersects \<lparr>minX = -200, minY = -200, maxX = 200, maxY = 200\<rparr> x)
     (index (addPin plane pinFar (addPin plane pinC (addPin plane pinB (addPin plane pinA newSpatialIndexService))))) \<and>
   mset (queryByRadius plane \<lparr>lat = 0, lng = 0\<rparr> 200
       (addPin plane pinFar (addPin plane pinC (addPin plane pinB (addPin plane pinA newSpatialIndexService))))) =
     mset (filter (\<lambda>p. distance plane \<lparr>lat = 0, lng = 0\<rparr> (location p) \<le> 200)
       (map pin (index (addPin plane pinFar (addPin plane pinC (addPin plane pinB (addPin plane pinA newSpatialIndexService))))))) \<and>
   sorted (map (\<lambda>p. distance plane \<lparr>lat = 0, lng = 0\<rparr> (location p))
     (queryByRadius plane \<lparr>lat = 0, lng = 0\<rparr> 200
       (addPin plane pinFar (addPin plane pinC (addPin plane pinB (addPin plane pinA newSpatialIndexService))))))"
proof -
  let ?svc = "addPin plane pinFar (addPin plane pinC (addPin plane pinB (addPin plane pinA newSpatialIndexService)))"
  let ?o = "\<lparr>lat = 0, lng = 0\<rparr>"
  have b2: "bufferBBox plane ?o 200 = Some (-200, -200, 200, 200)"
    by (simp add: plane_def)
  have q2: "queryByRadius plane ?o 200 ?svc = [pinA, pinB, pinC]"
    by (simp add: run_simps)
  have cover: "list_all (\<lambda>x. distance plane ?o (location (pin x)) \<le> 200 \<longrightarrow>
       intersects \<lparr>minX = -200, minY = -200, maxX = 200, maxY = 200\<rparr> x) (index ?svc)"
    by (simp add: run_simps)
  note inst = queryByRadius_box_and_distance [OF b2, of ?svc]
  from inst have ordered:
    "sorted (map (\<lambda>p. distance plane ?o (location p)) (queryByRadius plane ?o 200 ?svc))"
    by (rule conjunct2 [THEN conjunct1])
  from inst [THEN conjunct2, THEN conjunct2, THEN mp, OF cover]
  have exact: "mset (queryByRadius plane ?o 200 ?svc) =
      mset (filter (\<lambda>p. distance plane ?o (location p) \<le> 200) (map pin (index ?svc)))" .
  from b2 q2 cover exact ordered show ?thesis by (intro conjI)
qed

text \<open>
  C1. \<^verbatim>\<open>queryByRadius\<close> should return exactly the indexed markers within the radius of
  the query location, sorted by distance. At the 180th meridian it does not. Two markers
  are indexed, one at (0, 179.97) and one at (0, -179.995), 2223.9 m and 1667.9 m from the
  query location (0, 179.99); both are within the radius of 5000 m. The buffer box of the
  query runs from longitude -179.99279 to 179.99877, so it starts east of the second
  marker, whose stored box ends at -179.99410. The coarse filter drops that marker and
  the query returns the first one only. (\<open>queryByRadius_box_and_distance\<close> shows that the
  result is exact and sorted whenever the box of the query meets the stored box of every
  indexed marker within the radius.)
\<close>

theorem C1_queryByRadius_misses_across_dateline:
  "bufferBBox turfAtDateline dateline 5000 = Some (-179.99279, -0.04497, 179.99877, 0.04497) \<and>
   map pin (index (addPin turfAtDateline pinEast (addPin turfAtDateline pinWest newSpatialIndexService)))
     = [pinWest, pinEast] \<and>
   filter (\<lambda>p. distance turfAtDateline dateline (location p) \<le> 5000)
     (map pin (index (addPin turfAtDateline pinEast
        (addPin turfAtDateline pinWest newSpatialIndexService)))) = [pinWest, pinEast] \<and>
   distance turfAtDateline dateline (location pinEast) = 1667.9 \<and>
   queryByRadius turfAtDateline dateline 5000
     (addPin turfAtDateline pinEast (addPin turfAtDateline pinWest newSpatialIndexService)) = [pinWest] \<and>
   pinEast \<noteq> pinWest"
  by (simp add: dateline_simps)

subsection \<open>Merging the samples\<close>

lemma digits_small: "n < 10 \<Longrightarrow> digits n = [digit n]"
  by simp

lemma digits_large: "\<not> n < 10 \<Longrightarrow> digits n = digits (n div 10) @ [digit (n mod 10)]"
  by simp

declare digits.simps [simp del]

text \<open>The equations that compute the key of a concrete pin.\<close>

lemmas key_simps =
  pinKey_def toFixed5_def digits_small digits_large digit_def Let_def
  bigBen_def bigBen_again_def londonEye_def

text \<open>
  Two coordinates get the same text from \<^verbatim>\<open>toFixed(5)\<close> exactly when they round to the
  same number of units of \<open>10^-5\<close> and agree on being negative.
\<close>

lemma digit_cases:
  "d < 10 \<Longrightarrow> d = 0 \<or> d = 1 \<or> d = 2 \<or> d = 3 \<or> d = 4 \<or> d = 5 \<or> d = 6 \<or> d = 7 \<or> d = 8 \<or> d = (9::nat)"
  by arith

lemma digit_values:
  "digit 0 = CHR ''0''" "digit 1 = CHR ''1''" "digit 2 = CHR ''2''" "digit 3 = CHR ''3''"
  "digit 4 = CHR ''4''" "digit 5 = CHR ''5''" "digit 6 = CHR ''6''" "digit 7 = CHR ''7''"
  "digit 8 = CHR ''8''" "digit 9 = CHR ''9''" "digit (Suc 0) = CHR ''1''"
  by (simp_all add: digit_def)

lemma digit_code:
  assumes "d < 10"
  shows "of_char (digit d) = (48 + d :: nat)"
  using digit_cases [OF assms] by (elim disjE) (simp_all add: digit_values)

lemma digit_inj:
  assumes "a < 10" and "b < 10" and "digit a = digit b"
  shows "a = b"
proof -
  have "(of_char (digit a) :: nat) = of_char (digit b)"
    using assms(3) by simp
  then show ?thesis
    by (simp add: digit_code assms(1,2))
qed

lemma digit_plain:
  assumes "d < 10"
  shows "digit d \<notin> {CHR ''-'', CHR ''.'', CHR '',''}"
  using digit_cases [OF assms] by (elim disjE) (simp_all add: digit_values)

lemma digits_nonempty: "digits n \<noteq> []"
  by (cases "n < 10") (simp_all add: digits_small digits_large)

lemma digits_plain: "set (digits n) \<inter> {CHR ''-'', CHR ''.'', CHR '',''} = {}"
proof (induction n rule: digits.induct)
  case (1 n)
  show ?case
  proof (cases "n < 10")
    case True
    then show ?thesis
      using digit_plain [of n] by (simp add: digits_small)
  next
    case False
    have "n mod 10 < 10" by simp
    from digit_plain [OF this] 1 [OF False] False show ?thesis
      by (simp add: digits_large)
  qed
qed

lemma digits_inj: "digits m = digits n \<Longrightarrow> m = n"
proof (induction m arbitrary: n rule: digits.induct)
  case (1 m)
  show ?case
  proof (cases "m < 10")
    case True
    with "1.prems" have single: "digits n = [digit m]"
      by (simp add: digits_small)
    have "n < 10"
    proof (rule ccontr)
      assume "\<not> n < 10"
      then have "digits n = digits (n div 10) @ [digit (n mod 10)]"
        by (rule digits_large)
      with single digits_nonempty [of "n div 10"] show False by simp
    qed
    with single True show ?thesis
      by (simp add: digits_small digit_inj)
  next
    case False
    then have dm: "digits m = digits (m div 10) @ [digit (m mod 10)]"
      by (rule digits_large)
    have "\<not> n < 10"
    proof
      assume "n < 10"
      then have "digits n = [digit n]" by (rule digits_small)
      with dm "1.prems" digits_nonempty [of "m div 10"] show False by simp
    qed
    then have dn: "digits n = digits (n div 10) @ [digit (n mod 10)]"
      by (rule digits_large)
    from dm dn "1.prems" have "digits (m div 10) = digits (n div 10)"
      and "digit (m mod 10) = digit (n mod 10)"
      by simp_all
    then have "m div 10 = n div 10" and "m mod 10 = n mod 10"
      using "1.IH" [OF False] by (simp_all add: digit_inj)
    then show ?thesis
      by (metis div_mult_mod_eq)
  qed
qed

lemma mod_step:
  fixes a b K :: nat
  assumes "a div 10 mod K = b div 10 mod K" and "a mod 10 = b mod 10"
  shows "a mod (10 * K) = b mod (10 * K)"
  by (simp add: mod_mult2_eq assms)

lemma fraction_inj:
  assumes "map (\<lambda>k. digit (m div 10 ^ k mod 10)) [4, 3, 2, 1, 0] =
           map (\<lambda>k. digit (n div 10 ^ k mod 10)) [4, 3, 2, 1, 0::nat]"
  shows "m mod 100000 = n mod 100000"
proof -
  from assms have
    "digit (m div 10000 mod 10) = digit (n div 10000 mod 10)"
    "digit (m div 1000 mod 10) = digit (n div 1000 mod 10)"
    "digit (m div 100 mod 10) = digit (n div 100 mod 10)"
    "digit (m div 10 mod 10) = digit (n div 10 mod 10)"
    "digit (m mod 10) = digit (n mod 10)"
    by simp_all
  then have e4: "m div 10000 mod 10 = n div 10000 mod 10"
    and e3: "m div 1000 mod 10 = n div 1000 mod 10"
    and e2: "m div 100 mod 10 = n div 100 mod 10"
    and e1: "m div 10 mod 10 = n div 10 mod 10"
    and e0: "m mod 10 = n mod 10"
    by (simp_all add: digit_inj)
  have d: "k div 1000 div 10 = k div 10000" "k div 100 div 10 = k div 1000"
    "k div 10 div 10 = k div 100" for k :: nat
    by (simp_all add: div_mult2_eq [symmetric])
  have "m div 1000 mod (10 * 10) = n div 1000 mod (10 * 10)"
    by (rule mod_step) (simp_all only: d e4 e3)
  then have s3: "m div 1000 mod 100 = n div 1000 mod 100" by simp
  have "m div 100 mod (10 * 100) = n div 100 mod (10 * 100)"
    by (rule mod_step) (simp_all only: d s3 e2)
  then have s2: "m div 100 mod 1000 = n div 100 mod 1000" by simp
  have "m div 10 mod (10 * 1000) = n div 10 mod (10 * 1000)"
    by (rule mod_step) (simp_all only: d s2 e1)
  then have s1: "m div 10 mod 10000 = n div 10 mod 10000" by simp
  have "m mod (10 * 10000) = n mod (10 * 10000)"
    by (rule mod_step) (simp_all only: s1 e0)
  then show ?thesis by simp
qed

lemma toFixed5_rounded5:
  "toFixed5 x =
     (if x < 0 then ''-'' else []) @ digits (rounded5 x div 100000) @ ''.'' @
     map (\<lambda>k. digit (rounded5 x div 10 ^ k mod 10)) [4, 3, 2, 1, 0]"
  by (simp add: toFixed5_def rounded5_def Let_def)

lemma toFixed5_no_comma: "CHR '','' \<notin> set (toFixed5 x)"
proof -
  have "CHR '','' \<notin> set (digits (rounded5 x div 100000))"
    using digits_plain [of "rounded5 x div 100000"] by auto
  moreover have "CHR '','' \<noteq> digit d" if "d < 10" for d
    using digit_plain [OF that] by auto
  ultimately show ?thesis
    by (auto simp: toFixed5_rounded5)
qed

lemma signed_digits_eq:
  assumes "(if a then ''-'' else []) @ digits m = (if b then ''-'' else []) @ digits n"
  shows "a = b \<and> m = n"
proof -
  have nd: "CHR ''-'' \<notin> set (digits k)" for k
    using digits_plain [of k] by auto
  show ?thesis
  proof (cases a; cases b)
    assume "a" "b"
    with assms show ?thesis by (simp add: digits_inj)
  next
    assume "a" "\<not> b"
    with assms have "CHR ''-'' # digits m = digits n" by simp
    then have "CHR ''-'' \<in> set (digits n)"
      by (metis list.set_intros(1))
    with nd show ?thesis by simp
  next
    assume "\<not> a" "b"
    with assms have "digits m = CHR ''-'' # digits n" by simp
    then have "CHR ''-'' \<in> set (digits m)"
      by (metis list.set_intros(1))
    with nd show ?thesis by simp
  next
    assume "\<not> a" "\<not> b"
    with assms show ?thesis by (simp add: digits_inj)
  qed
qed

lemma toFixed5_eq_iff:
  "toFixed5 x = toFixed5 y \<longleftrightarrow> (x < 0 \<longleftrightarrow> y < 0) \<and> rounded5 x = rounded5 y"
proof
  assume eq: "toFixed5 x = toFixed5 y"
  let ?s = "\<lambda>x. (if x < 0 then ''-'' else []) @ digits (rounded5 x div 100000)"
  let ?f = "\<lambda>x. ''.'' @ map (\<lambda>k. digit (rounded5 x div 10 ^ k mod 10)) [4, 3, 2, 1, 0::nat]"
  from eq have whole: "?s x @ ?f x = ?s y @ ?f y"
    by (simp add: toFixed5_rounded5)
  have "length (?f x) = length (?f y)" by simp
  then have "(?s x @ ?f x = ?s y @ ?f y) = (?s x = ?s y \<and> ?f x = ?f y)"
    by (intro append_eq_append_conv disjI2)
  with whole have head_eq: "?s x = ?s y" and tail_eq: "?f x = ?f y"
    by blast+
  from signed_digits_eq [OF head_eq] have sign: "(x < 0) = (y < 0)"
    and hi: "rounded5 x div 100000 = rounded5 y div 100000"
    by simp_all
  from tail_eq have "map (\<lambda>k. digit (rounded5 x div 10 ^ k mod 10)) [4, 3, 2, 1, 0::nat] =
      map (\<lambda>k. digit (rounded5 y div 10 ^ k mod 10)) [4, 3, 2, 1, 0]"
    by simp
  then have lo: "rounded5 x mod 100000 = rounded5 y mod 100000"
    by (rule fraction_inj)
  from hi lo have "rounded5 x = rounded5 y"
    by (metis div_mult_mod_eq)
  with sign show "(x < 0 \<longleftrightarrow> y < 0) \<and> rounded5 x = rounded5 y" by simp
next
  assume "(x < 0 \<longleftrightarrow> y < 0) \<and> rounded5 x = rounded5 y"
  then show "toFixed5 x = toFixed5 y"
    by (simp add: toFixed5_rounded5)
qed

text \<open>
  Two pins have the same key exactly when their latitudes and their longitudes round to
  the same number of units of \<open>10^-5\<close> and agree on being negative.
\<close>

lemma pinKey_eq_iff:
  "pinKey p = pinKey q \<longleftrightarrow>
     (lat (location p) < 0 \<longleftrightarrow> lat (location q) < 0) \<and>
     rounded5 (lat (location p)) = rounded5 (lat (location q)) \<and>
     (lng (location p) < 0 \<longleftrightarrow> lng (location q) < 0) \<and>
     rounded5 (lng (location p)) = rounded5 (lng (location q))"
proof -
  have "pinKey p = pinKey q \<longleftrightarrow>
      toFixed5 (lat (location p)) = toFixed5 (lat (location q)) \<and>
      toFixed5 (lng (location p)) = toFixed5 (lng (location q))"
    unfolding pinKey_def
    by (simp add: append_Cons_eq_iff toFixed5_no_comma)
  then show ?thesis
    by (simp only: toFixed5_eq_iff) blast
qed

text \<open>The loop computes what the design's wording says.\<close>

lemma foldl_dedupStep:
  "map fst m = map pinKey (map snd m) \<Longrightarrow>
   map snd (foldl dedupStep m ps) = map snd m @ keepFirst (pinKey ` set (map snd m)) ps"
proof (induction ps arbitrary: m)
  case Nil
  then show ?case by simp
next
  case (Cons p ps)
  have keys: "fst ` set m = pinKey ` set (map snd m)"
    using Cons.prems by (metis list.set_map)
  show ?case
  proof (cases "pinKey p \<in> pinKey ` set (map snd m)")
    case True
    then have "map_of m (pinKey p) \<noteq> None"
      using keys by (simp add: map_of_eq_None_iff)
    then have "dedupStep m p = m"
      by (simp add: dedupStep_def Let_def)
    with True Cons show ?thesis by simp
  next
    case False
    then have "map_of m (pinKey p) = None"
      using keys by (simp add: map_of_eq_None_iff)
    then have step: "dedupStep m p = m @ [(pinKey p, p)]"
      by (simp add: dedupStep_def Let_def)
    have "map fst (m @ [(pinKey p, p)]) = map pinKey (map snd (m @ [(pinKey p, p)]))"
      using Cons.prems by simp
    from Cons.IH [OF this] False step show ?thesis by simp
  qed
qed

lemma dedupePins_keepFirst: "dedupePins ps = keepFirst {} ps"
  using foldl_dedupStep [of "[]" ps] by (simp add: dedupePins_def)

lemma keys_keepFirst: "pinKey ` set (keepFirst S ps) = pinKey ` set ps - S"
  by (induction S ps rule: keepFirst.induct) auto

lemma distinct_keepFirst: "distinct (map pinKey (keepFirst S ps))"
proof (induction S ps rule: keepFirst.induct)
  case (1 seen)
  then show ?case by simp
next
  case (2 seen p ps)
  have "pinKey p \<notin> pinKey ` set (keepFirst (insert (pinKey p) seen) ps)"
    by (simp add: keys_keepFirst)
  with 2 show ?case by simp
qed

lemma keepFirst_append:
  "keepFirst S (ps @ qs) = keepFirst S ps @ keepFirst (S \<union> pinKey ` set ps) qs"
proof (induction ps arbitrary: S)
  case Nil
  then show ?case by simp
next
  case (Cons p ps)
  show ?case
  proof (cases "pinKey p \<in> S")
    case True
    then have "S \<union> pinKey ` set (p # ps) = S \<union> pinKey ` set ps" by auto
    with True Cons [of S] show ?thesis by simp
  next
    case False
    have "S \<union> pinKey ` set (p # ps) = insert (pinKey p) S \<union> pinKey ` set ps" by auto
    with False Cons [of "insert (pinKey p) S"] show ?thesis by simp
  qed
qed

lemma keepFirst_filter:
  "keepFirst (insert k S) ps = keepFirst S (filter (\<lambda>y. pinKey y \<noteq> k) ps)"
proof (induction ps arbitrary: S)
  case Nil
  then show ?case by simp
next
  case (Cons p ps)
  show ?case
  proof (cases "pinKey p = k")
    case True
    with Cons [of S] show ?thesis by simp
  next
    case False
    with Cons [of S] Cons [of "insert (pinKey p) S"] show ?thesis
      by (simp add: insert_commute)
  qed
qed

lemma keepFirst_all_seen: "pinKey ` set ps \<subseteq> S \<Longrightarrow> keepFirst S ps = []"
  by (induction S ps rule: keepFirst.induct) auto

lemma keepFirst_sublist: "set (keepFirst S ps) \<subseteq> set ps"
  by (induction S ps rule: keepFirst.induct) auto

lemma those_map_Some: "those (map Some xs) = Some xs"
  by (induction xs) auto

text \<open>
  C4 (as amended). The merge concatenates the per-sample results and keeps, in order, the
  first pin of every key, the key being the text of latitude and longitude each rounded to
  5 decimal places, with the minus sign of a negative coordinate also when it rounds to
  zero: the
  keys of the result are distinct and are the keys of the input, the head of the input is
  kept and every later pin with its key is dropped, a pin whose key occurred earlier is
  discarded, and when every sample result carries one and the same key the merge yields
  exactly one marker. Two pins have the same key exactly when their latitudes and their
  longitudes round to the same multiple of \<open>10^-5\<close> and agree on being negative.
\<close>

theorem C4_dedup_first_per_key:
  "mergeSamples (map Some results) = dedupePins (concat results) \<and>
   dedupePins ps = keepFirst {} ps \<and>
   distinct (map pinKey (dedupePins ps)) \<and>
   pinKey ` set (dedupePins ps) = pinKey ` set ps \<and>
   set (dedupePins ps) \<subseteq> set ps \<and>
   dedupePins (p # ps) = p # dedupePins (filter (\<lambda>y. pinKey y \<noteq> pinKey p) ps) \<and>
   (pinKey q \<in> pinKey ` set pre \<longrightarrow> dedupePins (pre @ q # post) = dedupePins (pre @ post)) \<and>
   (concat results \<noteq> [] \<and> (\<forall>y \<in> set (concat results). pinKey y = k) \<longrightarrow>
      mergeSamples (map Some results) = [hd (concat results)]) \<and>
   (pinKey a = pinKey b \<longleftrightarrow>
      (lat (location a) < 0 \<longleftrightarrow> lat (location b) < 0) \<and>
      rounded5 (lat (location a)) = rounded5 (lat (location b)) \<and>
      (lng (location a) < 0 \<longleftrightarrow> lng (location b) < 0) \<and>
      rounded5 (lng (location a)) = rounded5 (lng (location b)))"
proof (intro conjI impI)
  show "mergeSamples (map Some results) = dedupePins (concat results)"
    by (simp add: mergeSamples_def those_map_Some)
  show "dedupePins ps = keepFirst {} ps"
    by (rule dedupePins_keepFirst)
  show "distinct (map pinKey (dedupePins ps))"
    by (simp add: dedupePins_keepFirst distinct_keepFirst)
  show "pinKey ` set (dedupePins ps) = pinKey ` set ps"
    by (simp add: dedupePins_keepFirst keys_keepFirst)
  show "set (dedupePins ps) \<subseteq> set ps"
    by (simp add: dedupePins_keepFirst keepFirst_sublist)
  show "dedupePins (p # ps) = p # dedupePins (filter (\<lambda>y. pinKey y \<noteq> pinKey p) ps)"
    by (simp add: dedupePins_keepFirst keepFirst_filter)
next
  assume "pinKey q \<in> pinKey ` set pre"
  then show "dedupePins (pre @ q # post) = dedupePins (pre @ post)"
    by (simp add: dedupePins_keepFirst keepFirst_append)
next
  assume a: "concat results \<noteq> [] \<and> (\<forall>y \<in> set (concat results). pinKey y = k)"
  then obtain x xs where c: "concat results = x # xs"
    by (cases "concat results") auto
  with a have "pinKey ` set xs \<subseteq> {pinKey x}" by auto
  then have "keepFirst {pinKey x} xs = []"
    by (rule keepFirst_all_seen)
  then show "mergeSamples (map Some results) = [hd (concat results)]"
    using c by (simp add: mergeSamples_def those_map_Some dedupePins_keepFirst)
next
  show "pinKey a = pinKey b \<longleftrightarrow>
      (lat (location a) < 0 \<longleftrightarrow> lat (location b) < 0) \<and>
      rounded5 (lat (location a)) = rounded5 (lat (location b)) \<and>
      (lng (location a) < 0 \<longleftrightarrow> lng (location b) < 0) \<and>
      rounded5 (lng (location a)) = rounded5 (lng (location b))"
    by (rule pinKey_eq_iff)
qed

theorem C4_dedup_witness:
  "pinKey bigBen = ''51.50070,-0.12460'' \<and> pinKey bigBen_again = pinKey bigBen \<and>
   pinKey londonEye \<in> pinKey ` set [bigBen, londonEye] \<and>
   dedupePins ([bigBen, londonEye] @ londonEye # [bigBen_again]) = [bigBen, londonEye] \<and>
   concat [[bigBen], [bigBen, bigBen_again], [bigBen]] \<noteq> [] \<and>
   map pinKey (concat [[bigBen], [bigBen, bigBen_again], [bigBen]]) =
     replicate 4 (pinKey bigBen) \<and>
   mergeSamples (map Some [[bigBen], [bigBen, bigBen_again], [bigBen]]) = [bigBen]"
proof -
  have k1: "pinKey bigBen = ''51.50070,-0.12460''" by (simp add: key_simps)
  have k2: "pinKey bigBen_again = ''51.50070,-0.12460''" by (simp add: key_simps)
  have k3: "pinKey londonEye = ''51.50330,-0.11950''" by (simp add: key_simps)
  have same: "concat [[bigBen], [bigBen, bigBen_again], [bigBen]] \<noteq> [] \<and>
    (\<forall>y \<in> set (concat [[bigBen], [bigBen, bigBen_again], [bigBen]]). pinKey y = pinKey bigBen)"
    by (simp add: k1 k2)
  have m: "pinKey londonEye \<in> pinKey ` set [bigBen, londonEye]" by simp
  note inst = C4_dedup_first_per_key
    [of "[[bigBen], [bigBen, bigBen_again], [bigBen]]" "[londonEye, bigBen_again]" bigBen
        londonEye "[bigBen, londonEye]" "[bigBen_again]" "pinKey bigBen"]
  note tail = inst [THEN conjunct2, THEN conjunct2, THEN conjunct2, THEN conjunct2,
    THEN conjunct2, THEN conjunct2]
  from tail [THEN conjunct2, THEN conjunct1, THEN mp, OF same]
  have "mergeSamples (map Some [[bigBen], [bigBen, bigBen_again], [bigBen]]) =
      [hd (concat [[bigBen], [bigBen, bigBen_again], [bigBen]])]" .
  then have one: "mergeSamples (map Some [[bigBen], [bigBen, bigBen_again], [bigBen]]) = [bigBen]"
    by simp
  from tail [THEN conjunct1, THEN mp, OF m]
  have "dedupePins ([bigBen, londonEye] @ londonEye # [bigBen_again]) =
      dedupePins ([bigBen, londonEye] @ [bigBen_again])" .
  also have "\<dots> = [bigBen, londonEye]"
    by (simp add: dedupePins_keepFirst k1 k2 k3)
  finally have two: "dedupePins ([bigBen, londonEye] @ londonEye # [bigBen_again]) = [bigBen, londonEye]" .
  have keys: "map pinKey (concat [[bigBen], [bigBen, bigBen_again], [bigBen]]) =
      replicate 4 (pinKey bigBen)"
    by (simp add: k1 k2 numeral_eq_Suc)
  show ?thesis
    by (intro conjI k1 m two one keys same [THEN conjunct1]) (simp only: k1 k2)
qed

text \<open>
  The claim as stated discards every later result whose rounded coordinates equal an
  earlier one's. The two results either side of the equator have the same rounded
  coordinates, latitude 0.00000 and longitude 10.00000, but \<^verbatim>\<open>toFixed(5)\<close> writes the
  latitude of the southern one as \<^verbatim>\<open>-0.00000\<close>: the keys differ and the merge keeps both.
\<close>

theorem C4_signed_zero_counterexample:
  "rounded5 (lat (location justNorth)) = 0 \<and> rounded5 (lat (location justSouth)) = 0 \<and>
   rounded5 (lng (location justNorth)) = rounded5 (lng (location justSouth)) \<and>
   pinKey justNorth = ''0.00000,10.00000'' \<and>
   pinKey justSouth = ''-0.00000,10.00000'' \<and>
   mergeSamples [Some [justNorth], Some [justSouth]] = [justNorth, justSouth]"
proof -
  have n: "pinKey justNorth = ''0.00000,10.00000''"
    by (simp add: key_simps justNorth_def)
  have s: "pinKey justSouth = ''-0.00000,10.00000''"
    by (simp add: key_simps justNorth_def justSouth_def)
  have m: "mergeSamples [Some [justNorth], Some [justSouth]] = [justNorth, justSouth]"
    by (simp add: mergeSamples_def dedupePins_def dedupStep_def n s)
  have r: "rounded5 (lat (location justNorth)) = 0" "rounded5 (lat (location justSouth)) = 0"
    "rounded5 (lng (location justNorth)) = rounded5 (lng (location justSouth))"
    by (simp_all add: rounded5_def justNorth_def justSouth_def)
  from r n s m show ?thesis by (intro conjI)
qed

subsection \<open>Webhook delivery\<close>

text \<open>The loop never makes more attempts than allowed, whatever the endpoint does.\<close>

lemma attemptDelivery_attempts_le:
  "attempts (delivery (attemptDelivery httpPost maxAttempts st)) \<le> max maxAttempts (attempts (delivery st))"
proof (induction httpPost maxAttempts st rule: attemptDelivery.induct)
  case (1 httpPost maxAttempts st)
  show ?case
  proof (cases "attempts (delivery st) < maxAttempts")
    case False
    then show ?thesis
      by (subst attemptDelivery.simps) simp
  next
    case True
    show ?thesis
    proof (cases "snd (httpPost (attempts (delivery st) + 1))")
      case None
      with True show ?thesis
        by (subst attemptDelivery.simps) (simp add: Let_def)
    next
      case (Some m)
      show ?thesis
      proof (cases "attempts (delivery st) + 1 < maxAttempts")
        case more: True
        from "1.IH"(1) [OF True refl refl, of m] Some more
        have "attempts (delivery (attemptDelivery httpPost maxAttempts
                (st\<lparr>delivery := (delivery st)\<lparr>attempts := attempts (delivery st) + 1,
                      lastAttempt := Some (now st), error := Some m\<rparr>,
                    now := now st + fst (httpPost (attempts (delivery st) + 1)) +
                      2 ^ (attempts (delivery st) + 1) * 1000,
                    waits := waits st @ [2 ^ (attempts (delivery st) + 1) * 1000]\<rparr>)))
              \<le> maxAttempts"
          by (simp add: Let_def)
        with True Some more show ?thesis
          by (subst attemptDelivery.simps) (simp add: Let_def)
      next
        case last: False
        from "1.IH"(2) [OF True refl refl, of m] Some last True
        have "attempts (delivery (attemptDelivery httpPost maxAttempts
                (st\<lparr>delivery := (delivery st)\<lparr>attempts := attempts (delivery st) + 1,
                      lastAttempt := Some (now st), error := Some m\<rparr>,
                    now := now st + fst (httpPost (attempts (delivery st) + 1))\<rparr>)))
              \<le> maxAttempts"
          by (simp add: Let_def)
        with True Some last show ?thesis
          by (subst attemptDelivery.simps) (simp add: Let_def)
      qed
    qed
  qed
qed

lemma deliver_first_ok:
  assumes "snd (httpPost 1) = None"
  shows "deliverWebhook httpPost i w t0 =
    \<lparr>webhook = w\<lparr>lastTriggered := Some (t0 + fst (httpPost 1))\<rparr>,
     delivery = \<lparr>delivery_id = i, webhookId = webhook_id w, status = Success, attempts = 1,
                 lastAttempt = Some t0, error = None\<rparr>,
     now = t0 + fst (httpPost 1), waits = []\<rparr>"
  using assms
  by (simp add: deliverWebhook_def attemptDelivery.simps Let_def
      numeral_2_eq_2 [symmetric] numeral_3_eq_3 [symmetric])

lemma deliver_second_ok:
  assumes "snd (httpPost 1) = Some m1" "snd (httpPost 2) = None"
  shows "deliverWebhook httpPost i w t0 =
    \<lparr>webhook = w\<lparr>lastTriggered := Some (t0 + fst (httpPost 1) + 2000 + fst (httpPost 2))\<rparr>,
     delivery = \<lparr>delivery_id = i, webhookId = webhook_id w, status = Success, attempts = 2,
                 lastAttempt = Some (t0 + fst (httpPost 1) + 2000), error = Some m1\<rparr>,
     now = t0 + fst (httpPost 1) + 2000 + fst (httpPost 2), waits = [2000]\<rparr>"
  using assms
  by (simp add: deliverWebhook_def attemptDelivery.simps Let_def
      numeral_2_eq_2 [symmetric] numeral_3_eq_3 [symmetric])

lemma deliver_third_ok:
  assumes "snd (httpPost 1) = Some m1" "snd (httpPost 2) = Some m2" "snd (httpPost 3) = None"
  shows "deliverWebhook httpPost i w t0 =
    \<lparr>webhook = w\<lparr>lastTriggered :=
        Some (t0 + fst (httpPost 1) + 2000 + fst (httpPost 2) + 4000 + fst (httpPost 3))\<rparr>,
     delivery = \<lparr>delivery_id = i, webhookId = webhook_id w, status = Success, attempts = 3,
                 lastAttempt = Some (t0 + fst (httpPost 1) + 2000 + fst (httpPost 2) + 4000),
                 error = Some m2\<rparr>,
     now = t0 + fst (httpPost 1) + 2000 + fst (httpPost 2) + 4000 + fst (httpPost 3),
     waits = [2000, 4000]\<rparr>"
  using assms
  by (simp add: deliverWebhook_def attemptDelivery.simps Let_def
      numeral_2_eq_2 [symmetric] numeral_3_eq_3 [symmetric])

lemma deliver_all_failed:
  assumes "snd (httpPost 1) = Some m1" "snd (httpPost 2) = Some m2" "snd (httpPost 3) = Some m3"
  shows "deliverWebhook httpPost i w t0 =
    \<lparr>webhook = w,
     delivery = \<lparr>delivery_id = i, webhookId = webhook_id w, status = Failed, attempts = 3,
                 lastAttempt = Some (t0 + fst (httpPost 1) + 2000 + fst (httpPost 2) + 4000),
                 error = Some m3\<rparr>,
     now = t0 + fst (httpPost 1) + 2000 + fst (httpPost 2) + 4000 + fst (httpPost 3),
     waits = [2000, 4000]\<rparr>"
  using assms
  by (simp add: deliverWebhook_def attemptDelivery.simps Let_def
      numeral_2_eq_2 [symmetric] numeral_3_eq_3 [symmetric])


lemma upt_1_2: "[Suc 0..<2] = [Suc 0]"
  by (simp add: upt_rec)

lemma upt_1_3: "[Suc 0..<3] = [Suc 0, 2]"
  by (simp add: upt_rec)

lemma between_1_2: "Suc 0 \<le> k \<Longrightarrow> k < 2 \<Longrightarrow> k = Suc 0"
  by arith

lemma between_1_3: "Suc 0 \<le> k \<Longrightarrow> k < 3 \<Longrightarrow> k = Suc 0 \<or> k = 2"
  by arith

text \<open>
  C3. Every delivery makes at least one and at most 3 attempts. After a failed attempt
  \<open>k\<close> that is not the last the subsystem waits \<open>2^k\<close> seconds before the next attempt:
  2 s after the first attempt and 4 s after the second (the third attempt is the last, so
  the 8 s that the formula gives for it are not waited). When all
  three attempts fail the delivery ends with status failed, 3 attempts, and the webhook's
  \<open>lastTriggered\<close> as it was. Otherwise it ends with status success at the first attempt
  that succeeds, and \<open>lastTriggered\<close> is set to the time of that success.
\<close>

theorem C3_delivery_attempts:
  "(let r = deliverWebhook httpPost i w t0; n = attempts (delivery r)
    in 1 \<le> n \<and> n \<le> 3 \<and>
       waits r = map (\<lambda>k. 2 ^ k * 1000) [1..<n] \<and>
       (status (delivery r) = Failed \<longleftrightarrow>
          snd (httpPost 1) \<noteq> None \<and> snd (httpPost 2) \<noteq> None \<and> snd (httpPost 3) \<noteq> None) \<and>
       (status (delivery r) = Failed \<or> status (delivery r) = Success) \<and>
       (status (delivery r) = Failed \<longrightarrow>
          n = 3 \<and> waits r = [2000, 4000] \<and> lastTriggered (webhook r) = lastTriggered w) \<and>
       (status (delivery r) = Success \<longrightarrow>
          snd (httpPost n) = None \<and> (\<forall>k. 1 \<le> k \<and> k < n \<longrightarrow> snd (httpPost k) \<noteq> None) \<and>
          lastTriggered (webhook r) = Some (now r)))"
proof (cases "snd (httpPost 1)")
  case None
  then show ?thesis
    by (simp add: deliver_first_ok Let_def)
next
  case h1: (Some m1)
  show ?thesis
  proof (cases "snd (httpPost 2)")
    case None
    with h1 show ?thesis
      by (auto simp: deliver_second_ok Let_def upt_1_2 dest: between_1_2)
  next
    case h2: (Some m2)
    show ?thesis
    proof (cases "snd (httpPost 3)")
      case None
      with h1 h2 show ?thesis
        by (auto simp: deliver_third_ok Let_def upt_1_3 dest: between_1_3)
    next
      case (Some m3)
      with h1 h2 show ?thesis
        by (simp add: deliver_all_failed Let_def upt_1_3)
    qed
  qed
qed

theorem C3_delivery_attempts_witness:
  "status (delivery (deliverWebhook endpointFailsTwice ''delivery_1'' hook 0)) = Success \<and>
   attempts (delivery (deliverWebhook endpointFailsTwice ''delivery_1'' hook 0)) = 3 \<and>
   waits (deliverWebhook endpointFailsTwice ''delivery_1'' hook 0) = [2000, 4000] \<and>
   lastTriggered (webhook (deliverWebhook endpointFailsTwice ''delivery_1'' hook 0)) = Some 6150 \<and>
   status (delivery (deliverWebhook endpointDown ''delivery_2'' hook 0)) = Failed \<and>
   lastTriggered (webhook (deliverWebhook endpointDown ''delivery_2'' hook 0)) = None \<and>
   status (delivery (deliverWebhook endpointUp ''delivery_3'' hook 0)) = Success \<and>
   attempts (delivery (deliverWebhook endpointUp ''delivery_3'' hook 0)) = 1 \<and>
   waits (deliverWebhook endpointUp ''delivery_3'' hook 0) = []"
proof -
  have a: "snd (endpointFailsTwice 1) \<noteq> None" "snd (endpointFailsTwice 2) \<noteq> None"
    "snd (endpointFailsTwice 3) = None"
    by (simp_all add: endpointFailsTwice_def)
  have b: "snd (endpointDown 1) \<noteq> None" "snd (endpointDown 2) \<noteq> None" "snd (endpointDown 3) \<noteq> None"
    by (simp_all add: endpointDown_def)
  have c: "snd (endpointUp 1) = None"
    by (simp add: endpointUp_def)
  have r1: "deliverWebhook endpointFailsTwice ''delivery_1'' hook 0 =
      \<lparr>webhook = hook\<lparr>lastTriggered := Some 6150\<rparr>,
       delivery = \<lparr>delivery_id = ''delivery_1'', webhookId = webhook_id hook, status = Success,
                   attempts = 3, lastAttempt = Some 6100,
                   error = Some ''Request failed with status code 503''\<rparr>,
       now = 6150, waits = [2000, 4000]\<rparr>"
    by (simp add: deliver_third_ok [where ?m1.0 = "''Request failed with status code 503''"
          and ?m2.0 = "''Request failed with status code 503''"] endpointFailsTwice_def)
  have r3: "deliverWebhook endpointUp ''delivery_3'' hook 0 =
      \<lparr>webhook = hook\<lparr>lastTriggered := Some 50\<rparr>,
       delivery = \<lparr>delivery_id = ''delivery_3'', webhookId = webhook_id hook, status = Success,
                   attempts = 1, lastAttempt = Some 0, error = None\<rparr>,
       now = 50, waits = []\<rparr>"
    by (simp add: deliver_first_ok endpointUp_def)
  from C3_delivery_attempts [of endpointDown "''delivery_2''" hook 0] b
  have "status (delivery (deliverWebhook endpointDown ''delivery_2'' hook 0)) = Failed \<and>
        lastTriggered (webhook (deliverWebhook endpointDown ''delivery_2'' hook 0)) = lastTriggered hook"
    by (simp add: Let_def)
  moreover have "lastTriggered hook = None"
    by (simp add: hook_def)
  ultimately show ?thesis
    by (simp add: r1 r3)
qed

subsection \<open>Batch processing\<close>

lemma nextQueued_Some:
  "nextQueued ts = Some i \<Longrightarrow> i < length ts \<and> ts ! i = Queued"
proof (induction ts arbitrary: i)
  case Nil
  then show ?case by simp
next
  case (Cons t ts)
  show ?case
  proof (cases t)
    case Queued
    with Cons.prems show ?thesis by simp
  next
    case InFlight
    with Cons.prems obtain k where "nextQueued ts = Some k" "i = Suc k" by auto
    with Cons.IH show ?thesis by simp
  next
    case (Done r)
    with Cons.prems obtain k where "nextQueued ts = Some k" "i = Suc k" by auto
    with Cons.IH show ?thesis by simp
  qed
qed

lemma length_tasks_step:
  "batchStep failFast c e b = Some b' \<Longrightarrow> length (tasks b') = length (tasks b)"
  by (cases e) (auto split: if_splits option.splits settled.splits)

text \<open>Once the flag is set it stays set, and no step calls the routing service.\<close>

lemma stopped_step:
  assumes "batchStep failFast c e b = Some b'" and "shouldStop b"
  shows "shouldStop b' \<and> calls b' = calls b"
  using assms by (cases e) (auto split: if_splits option.splits settled.splits)

text \<open>
  Once the flag is set, a step leaves a queued task queued or gives it the synthetic
  failure, and leaves a task that has the synthetic failure as it is.
\<close>

lemma stopped_step_task:
  assumes step: "batchStep failFast c e b = Some b'" and stop: "shouldStop b"
    and i: "i < length (tasks b)"
    and t: "tasks b ! i = Queued \<or> tasks b ! i = Done (stoppedResult i)"
  shows "tasks b' ! i = Queued \<or> tasks b' ! i = Done (stoppedResult i)"
proof (cases e)
  case Start
  with step stop obtain j where j: "nextQueued (tasks b) = Some j"
    and b': "b' = b\<lparr>tasks := (tasks b)[j := Done (stoppedResult j)]\<rparr>"
    by (auto split: if_splits option.splits)
  show ?thesis
  proof (cases "j = i")
    case True
    with b' i show ?thesis by simp
  next
    case False
    with b' t show ?thesis by simp
  qed
next
  case (Settle j outcome)
  with step have j: "tasks b ! j = InFlight" and
    tb: "\<exists>r. tasks b' = (tasks b)[j := Done r]"
    by (auto split: if_splits settled.splits)
  from j t have "j \<noteq> i" by auto
  with tb t show ?thesis by auto
qed

lemma stopped_run:
  assumes "batchRun failFast c es b = Some b'" and "shouldStop b"
    and "i < length (tasks b)"
    and "tasks b ! i = Queued \<or> tasks b ! i = Done (stoppedResult i)"
  shows "shouldStop b' \<and> calls b' = calls b \<and>
         (tasks b' ! i = Queued \<or> tasks b' ! i = Done (stoppedResult i))"
  using assms
proof (induction es arbitrary: b)
  case Nil
  then show ?case by simp
next
  case (Cons e es)
  from Cons.prems(1) obtain b1 where
    s: "batchStep failFast c e b = Some b1" and r: "batchRun failFast c es b1 = Some b'"
    by (auto split: option.splits)
  from stopped_step [OF s Cons.prems(2)] have st: "shouldStop b1" and cs: "calls b1 = calls b"
    by simp_all
  from length_tasks_step [OF s] Cons.prems(3) have len: "i < length (tasks b1)"
    by simp
  from stopped_step_task [OF s Cons.prems(2,3,4)]
  have t1: "tasks b1 ! i = Queued \<or> tasks b1 ! i = Done (stoppedResult i)" .
  from Cons.IH [OF r st len t1] cs show ?case by simp
qed

lemma queued_uncalled_step:
  assumes "batchStep failFast c e b = Some b'" and "queued_uncalled b"
  shows "queued_uncalled b'"
proof (cases e)
  case Start
  show ?thesis
  proof (cases "shouldStop b")
    case True
    with assms(1) Start obtain j where j: "nextQueued (tasks b) = Some j"
      and b': "b' = b\<lparr>tasks := (tasks b)[j := Done (stoppedResult j)]\<rparr>"
      by (auto split: if_splits option.splits)
    from nextQueued_Some [OF j] have "j < length (tasks b)" by simp
    with assms(2) b' show ?thesis
      by (auto simp: queued_uncalled_def list_all_iff nth_list_update split: if_splits)
  next
    case False
    with assms(1) Start obtain j where j: "nextQueued (tasks b) = Some j"
      and b': "b' = b\<lparr>tasks := (tasks b)[j := InFlight], calls := calls b @ [j]\<rparr>"
      by (auto split: if_splits option.splits)
    from nextQueued_Some [OF j] have "j < length (tasks b)" by simp
    with assms(2) b' show ?thesis
      by (auto simp: queued_uncalled_def list_all_iff nth_list_update split: if_splits)
  qed
next
  case (Settle j outcome)
  with assms(1) have jl: "j < length (tasks b)" and
    tb: "\<exists>r. tasks b' = (tasks b)[j := Done r]" and cb: "calls b' = calls b"
    by (auto split: if_splits settled.splits)
  with assms(2) show ?thesis
    by (auto simp: queued_uncalled_def list_all_iff nth_list_update split: if_splits)
qed

lemma queued_uncalled_run:
  "batchRun failFast c es b = Some b' \<Longrightarrow> queued_uncalled b \<Longrightarrow> queued_uncalled b'"
proof (induction es arbitrary: b)
  case Nil
  then show ?case by simp
next
  case (Cons e es)
  then show ?case
    by (auto split: option.splits dest: queued_uncalled_step)
qed

lemma queued_uncalled_new: "queued_uncalled (newBatch n)"
  by (simp add: queued_uncalled_def newBatch_def)

lemma length_tasks_run:
  "batchRun failFast c es b = Some b' \<Longrightarrow> length (tasks b') = length (tasks b)"
proof (induction es arbitrary: b)
  case Nil
  then show ?case by simp
next
  case (Cons e es)
  then show ?case
    by (auto split: option.splits dest: length_tasks_step)
qed

lemma those_nth:
  "those xs = Some ys \<Longrightarrow> i < length xs \<Longrightarrow> xs ! i = Some (ys ! i)"
proof (induction xs arbitrary: ys i)
  case Nil
  then show ?case by simp
next
  case (Cons x xs)
  then show ?case
    by (cases i) (auto split: option.splits)
qed

lemma batchResponse_nth:
  assumes "batchResponse b = Some r" and "i < length (tasks b)"
  shows "tasks b ! i = Done (route_results r ! i)"
proof -
  from assms(1) obtain rs where rs: "those (map taskResult (tasks b)) = Some rs"
    and r: "route_results r = rs"
    by (auto simp: batchResponse_def split: option.splits)
  from those_nth [OF rs] assms(2) have "taskResult (tasks b ! i) = Some (rs ! i)"
    by simp
  then show ?thesis
    using r by (cases "tasks b ! i") auto
qed

text \<open>
  Progress: once the flag is set, a batch that has not finished can always take a step
  that gives one more task its result. An in-flight routing call settles; when none is
  in flight the queue starts the next task, which returns the synthetic failure.
\<close>

lemma batchRun_append:
  "batchRun failFast c (es1 @ es2) b =
     (case batchRun failFast c es1 b of None \<Rightarrow> None | Some b' \<Rightarrow> batchRun failFast c es2 b')"
  by (induction es1 arbitrary: b) (auto split: option.splits)

lemma filter_update_less:
  "j < length xs \<Longrightarrow> P (xs ! j) \<Longrightarrow> \<not> P y \<Longrightarrow>
     length (filter P (xs[j := y])) < length (filter P xs)"
proof (induction xs arbitrary: j)
  case Nil
  then show ?case by simp
next
  case (Cons x xs)
  show ?case
  proof (cases j)
    case 0
    with Cons.prems show ?thesis by simp
  next
    case (Suc k)
    with Cons.prems Cons.IH [of k] show ?thesis by simp
  qed
qed

lemma nextQueued_exists: "Queued \<in> set ts \<Longrightarrow> \<exists>i. nextQueued ts = Some i"
proof (induction ts)
  case Nil
  then show ?case by simp
next
  case (Cons t ts)
  then show ?case by (cases t) auto
qed

lemma stopped_progress:
  assumes stop: "shouldStop b" and c: "0 < c" and open_tasks: "\<not> finished b"
  shows "\<exists>e b'. batchStep True c e b = Some b' \<and> shouldStop b' \<and> pending b' < pending b"
proof (cases "InFlight \<in> set (tasks b)")
  case True
  then obtain j where j: "j < length (tasks b)" "tasks b ! j = InFlight"
    by (auto simp: in_set_conv_nth)
  let ?r = "\<lparr>result_index = j, success = False, result_data = None, result_error = Some []\<rparr>"
  let ?b = "b\<lparr>shouldStop := True, tasks := (tasks b)[j := Done ?r]\<rparr>"
  have "batchStep True c (Settle j (Rejected [])) b = Some ?b"
    using j by simp
  moreover have "pending ?b < pending b"
    using j by (simp add: pending_def filter_update_less)
  moreover have "shouldStop ?b" by simp
  ultimately show ?thesis by blast
next
  case False
  then have "inFlight b = 0"
    by (auto simp: inFlight_def filter_empty_conv)
  with c have room: "inFlight b < c" by simp
  from open_tasks obtain t where t: "t \<in> set (tasks b)" "taskResult t = None"
    by (auto simp: finished_def list_all_iff)
  with False have "t = Queued" by (cases t) auto
  with t nextQueued_exists obtain i where i: "nextQueued (tasks b) = Some i"
    by blast
  from nextQueued_Some [OF i] have il: "i < length (tasks b)" "tasks b ! i = Queued"
    by simp_all
  let ?b = "b\<lparr>tasks := (tasks b)[i := Done (stoppedResult i)]\<rparr>"
  have "batchStep True c Start b = Some ?b"
    using room i stop by simp
  moreover have "pending ?b < pending b"
    using il by (simp add: pending_def filter_update_less)
  moreover have "shouldStop ?b" using stop by simp
  ultimately show ?thesis by blast
qed

lemma stopped_completes:
  assumes "shouldStop b" and "0 < c"
  shows "\<exists>es b'. batchRun True c es b = Some b' \<and> finished b'"
  using assms
proof (induction "pending b" arbitrary: b rule: less_induct)
  case less
  show ?case
  proof (cases "finished b")
    case True
    have "batchRun True c [] b = Some b" by simp
    with True show ?thesis by blast
  next
    case False
    from stopped_progress [OF less.prems(1,2) False] obtain e b1 where
      s: "batchStep True c e b = Some b1" "shouldStop b1" "pending b1 < pending b"
      by blast
    from less.hyps [OF s(3) s(2) less.prems(2)] obtain es b' where
      r: "batchRun True c es b1 = Some b'" "finished b'"
      by blast
    from s(1) r(1) have "batchRun True c (e # es) b = Some b'" by simp
    with r(2) show ?thesis by blast
  qed
qed

lemma those_all_Some:
  "list_all (\<lambda>x. x \<noteq> None) xs \<Longrightarrow> \<exists>ys. those xs = Some ys"
  by (induction xs) auto

lemma finished_response:
  assumes "finished b"
  shows "\<exists>r. batchResponse b = Some r \<and> totalRequests r = length (tasks b)"
proof -
  from assms have "list_all (\<lambda>x. x \<noteq> None) (map taskResult (tasks b))"
    by (simp add: finished_def list_all_iff)
  from those_all_Some [OF this] obtain rs where "those (map taskResult (tasks b)) = Some rs"
    by blast
  then show ?thesis by (simp add: batchResponse_def)
qed

text \<open>A queue of concurrency 0 never starts a task.\<close>

lemma no_concurrency_step:
  assumes "batchStep failFast 0 e b = Some b'" and "list_all (\<lambda>t. t = Queued) (tasks b)"
  shows "False"
proof (cases e)
  case Start
  with assms(1) show ?thesis by simp
next
  case (Settle j outcome)
  with assms(1) have "j < length (tasks b)" "tasks b ! j = InFlight"
    by (auto split: if_splits)
  then have "InFlight \<in> set (tasks b)"
    by (metis nth_mem)
  with assms(2) show ?thesis
    by (auto simp: list_all_iff)
qed

lemma no_concurrency_run:
  "batchRun failFast 0 es (newBatch n) = Some b \<Longrightarrow> b = newBatch n"
proof (cases es)
  case Nil
  assume "batchRun failFast 0 es (newBatch n) = Some b"
  with Nil show ?thesis by simp
next
  case (Cons e es')
  assume "batchRun failFast 0 es (newBatch n) = Some b"
  with Cons obtain b1 where "batchStep failFast 0 e (newBatch n) = Some b1"
    by (auto split: option.splits)
  moreover have "list_all (\<lambda>t. t = Queued) (tasks (newBatch n :: 'a batch))"
    by (simp add: newBatch_def list_all_iff)
  ultimately show ?thesis using no_concurrency_step by blast
qed


text \<open>
  C2. Take any run of a batch with \<open>failFast\<close> set, up to a step in which a task fails,
  and any continuation of it. The failure sets the stop flag. A task \<open>i\<close> that was still
  queued at that moment is never handed to the routing service, and it is queued or has the
  result \<^verbatim>\<open>{ index: i, success: false, error: 'Batch processing stopped due to previous error' }\<close>.
  When the queue starts it, that result is what it returns, at once. The batch can always
  be run to its end from there, and at the end of every such run the response of the batch
  exists, counts all \<open>n\<close> requests, and has that failure as its entry \<open>i\<close>, still without a
  call of the routing service for \<open>i\<close>.
\<close>

theorem C2_failFast_stops_unstarted:
  assumes before: "batchRun True c es1 (newBatch n) = Some b1"
    and failure: "batchStep True c (Settle j (Rejected m)) b1 = Some b2"
    and after: "batchRun True c es2 b2 = Some b3"
    and i: "i < n" and unstarted: "tasks b2 ! i = Queued"
  shows "shouldStop b2 \<and>
         i \<notin> set (calls b3) \<and>
         (tasks b3 ! i = Queued \<or>
          tasks b3 ! i = Done \<lparr>result_index = i, success = False, result_data = None,
            result_error = Some ''Batch processing stopped due to previous error''\<rparr>) \<and>
         (nextQueued (tasks b3) = Some i \<and> inFlight b3 < c \<longrightarrow>
            batchStep True c Start b3 =
              Some (b3\<lparr>tasks := (tasks b3)[i := Done \<lparr>result_index = i, success = False,
                result_data = None,
                result_error = Some ''Batch processing stopped due to previous error''\<rparr>]\<rparr>)) \<and>
         (\<exists>es b4. batchRun True c es b3 = Some b4 \<and> finished b4) \<and>
         (\<forall>es b4. batchRun True c es b3 = Some b4 \<and> finished b4 \<longrightarrow>
            i \<notin> set (calls b4) \<and>
            (\<exists>r. batchResponse b4 = Some r \<and> totalRequests r = n \<and>
               route_results r ! i =
                 \<lparr>result_index = i, success = False, result_data = None,
                  result_error = Some ''Batch processing stopped due to previous error''\<rparr>))"
proof -
  have stop: "shouldStop b2"
    using failure by (auto split: if_splits)
  have len1: "length (tasks b1) = n"
    using length_tasks_run [OF before] by (simp add: newBatch_def)
  have len2: "length (tasks b2) = n"
    using length_tasks_step [OF failure] len1 by simp
  have len3: "length (tasks b3) = n"
    using length_tasks_run [OF after] len2 by simp
  have c: "0 < c"
  proof (rule ccontr)
    assume "\<not> 0 < c"
    with before have "b1 = newBatch n"
      by (simp add: no_concurrency_run)
    moreover from failure have "j < length (tasks b1)" "tasks b1 ! j = InFlight"
      by (auto split: if_splits)
    ultimately show False by (simp add: newBatch_def)
  qed
  have "queued_uncalled b1"
    using before queued_uncalled_new by (rule queued_uncalled_run)
  with failure have "queued_uncalled b2"
    by (rule queued_uncalled_step)
  with unstarted have uncalled: "i \<notin> set (calls b2)"
    by (auto simp: queued_uncalled_def list_all_iff)
  from i len2 have i2: "i < length (tasks b2)" by simp
  from i len3 have i3: "i < length (tasks b3)" by simp
  from stopped_run [OF after stop i2] unstarted
  have stop3: "shouldStop b3" and cs: "calls b3 = calls b2"
    and t3: "tasks b3 ! i = Queued \<or> tasks b3 ! i = Done (stoppedResult i)"
    by simp_all
  from t3 have t3': "tasks b3 ! i = Queued \<or>
      tasks b3 ! i = Done \<lparr>result_index = i, success = False, result_data = None,
        result_error = Some ''Batch processing stopped due to previous error''\<rparr>"
    by (simp add: stoppedResult_def)
  have start: "batchStep True c Start b3 =
      Some (b3\<lparr>tasks := (tasks b3)[i := Done \<lparr>result_index = i, success = False,
        result_data = None,
        result_error = Some ''Batch processing stopped due to previous error''\<rparr>]\<rparr>)"
    if "nextQueued (tasks b3) = Some i \<and> inFlight b3 < c"
    using that stop3 by (simp add: stoppedResult_def)
  have ends: "\<exists>es b4. batchRun True c es b3 = Some b4 \<and> finished b4"
    using stop3 c by (rule stopped_completes)
  have every: "i \<notin> set (calls b4) \<and>
      (\<exists>r. batchResponse b4 = Some r \<and> totalRequests r = n \<and>
         route_results r ! i =
           \<lparr>result_index = i, success = False, result_data = None,
            result_error = Some ''Batch processing stopped due to previous error''\<rparr>)"
    if run: "batchRun True c es b3 = Some b4 \<and> finished b4" for es b4
  proof -
    from run have r: "batchRun True c es b3 = Some b4" and f: "finished b4" by simp_all
    from stopped_run [OF r stop3 i3 t3]
    have cs4: "calls b4 = calls b3"
      and t4: "tasks b4 ! i = Queued \<or> tasks b4 ! i = Done (stoppedResult i)"
      by simp_all
    have len4: "length (tasks b4) = n"
      using length_tasks_run [OF r] len3 by simp
    from finished_response [OF f] obtain resp where
      resp: "batchResponse b4 = Some resp" "totalRequests resp = length (tasks b4)"
      by blast
    from batchResponse_nth [OF resp(1)] i len4
    have "tasks b4 ! i = Done (route_results resp ! i)" by simp
    with t4 have "route_results resp ! i = stoppedResult i" by auto
    with resp len4 cs4 cs uncalled show ?thesis
      by (simp add: stoppedResult_def)
  qed
  from uncalled cs have uncalled3: "i \<notin> set (calls b3)" by simp
  from start have start_obj: "nextQueued (tasks b3) = Some i \<and> inFlight b3 < c \<longrightarrow>
      batchStep True c Start b3 =
        Some (b3\<lparr>tasks := (tasks b3)[i := Done \<lparr>result_index = i, success = False,
          result_data = None,
          result_error = Some ''Batch processing stopped due to previous error''\<rparr>]\<rparr>)"
    by (rule impI)
  from every have every_obj: "\<forall>es b4. batchRun True c es b3 = Some b4 \<and> finished b4 \<longrightarrow>
      i \<notin> set (calls b4) \<and>
      (\<exists>r. batchResponse b4 = Some r \<and> totalRequests r = n \<and>
         route_results r ! i =
           \<lparr>result_index = i, success = False, result_data = None,
            result_error = Some ''Batch processing stopped due to previous error''\<rparr>)"
    by (intro allI impI)
  from stop uncalled3 t3' start_obj ends every_obj show ?thesis
    by (intro conjI)
qed

theorem C2_failFast_witness:
  "batchRun True 2 [Start, Start] (newBatch 5 :: nat batch) =
     Some \<lparr>shouldStop = False, tasks = [InFlight, InFlight, Queued, Queued, Queued],
           calls = [0, 1]\<rparr> \<and>
   batchStep True 2 (Settle 1 (Rejected ''No route found'' :: nat settled))
     \<lparr>shouldStop = False, tasks = [InFlight, InFlight, Queued, Queued, Queued], calls = [0, 1]\<rparr> =
     Some \<lparr>shouldStop = True,
           tasks = [InFlight,
                    Done \<lparr>result_index = 1, success = False, result_data = None,
                          result_error = Some ''No route found''\<rparr>,
                    Queued, Queued, Queued],
           calls = [0, 1]\<rparr> \<and>
   batchRun True 2 [Start]
     (\<lparr>shouldStop = True,
      tasks = [InFlight,
               Done \<lparr>result_index = 1, success = False, result_data = None,
                     result_error = Some ''No route found''\<rparr>,
               Queued, Queued, Queued],
      calls = [0, 1]\<rparr> :: nat batch) =
     Some \<lparr>shouldStop = True,
           tasks = [InFlight,
                    Done \<lparr>result_index = 1, success = False, result_data = None,
                          result_error = Some ''No route found''\<rparr>,
                    Done \<lparr>result_index = 2, success = False, result_data = None,
                      result_error = Some ''Batch processing stopped due to previous error''\<rparr>,
                    Queued, Queued],
           calls = [0, 1]\<rparr> \<and>
   (3::nat) < 5 \<and>
   nextQueued [InFlight,
               Done \<lparr>result_index = 1, success = False, result_data = None,
                     result_error = Some ''No route found''\<rparr>,
               Done \<lparr>result_index = 2, success = False, result_data = None,
                 result_error = Some ''Batch processing stopped due to previous error''\<rparr>,
               Queued, Queued :: nat task] = Some 3 \<and>
   batchRun True 2 [Start, Settle 0 (Resolved (42::nat)), Start]
     \<lparr>shouldStop = True,
      tasks = [InFlight,
               Done \<lparr>result_index = 1, success = False, result_data = None,
                     result_error = Some ''No route found''\<rparr>,
               Done \<lparr>result_index = 2, success = False, result_data = None,
                 result_error = Some ''Batch processing stopped due to previous error''\<rparr>,
               Queued, Queued],
      calls = [0, 1]\<rparr> =
     Some \<lparr>shouldStop = True,
           tasks = [Done \<lparr>result_index = 0, success = True, result_data = Some 42,
                          result_error = None\<rparr>,
                    Done \<lparr>result_index = 1, success = False, result_data = None,
                          result_error = Some ''No route found''\<rparr>,
                    Done \<lparr>result_index = 2, success = False, result_data = None,
                      result_error = Some ''Batch processing stopped due to previous error''\<rparr>,
                    Done \<lparr>result_index = 3, success = False, result_data = None,
                      result_error = Some ''Batch processing stopped due to previous error''\<rparr>,
                    Done \<lparr>result_index = 4, success = False, result_data = None,
                      result_error = Some ''Batch processing stopped due to previous error''\<rparr>],
           calls = [0, 1]\<rparr> \<and>
   batchResponse
     \<lparr>shouldStop = True,
      tasks = [Done \<lparr>result_index = 0, success = True, result_data = Some (42::nat),
                     result_error = None\<rparr>,
               Done \<lparr>result_index = 1, success = False, result_data = None,
                     result_error = Some ''No route found''\<rparr>,
               Done \<lparr>result_index = 2, success = False, result_data = None,
                 result_error = Some ''Batch processing stopped due to previous error''\<rparr>,
               Done \<lparr>result_index = 3, success = False, result_data = None,
                 result_error = Some ''Batch processing stopped due to previous error''\<rparr>,
               Done \<lparr>result_index = 4, success = False, result_data = None,
                 result_error = Some ''Batch processing stopped due to previous error''\<rparr>],
      calls = [0, 1]\<rparr> =
     Some \<lparr>totalRequests = 5, successful = 1, failed = 4,
           route_results =
             [\<lparr>result_index = 0, success = True, result_data = Some 42, result_error = None\<rparr>,
              \<lparr>result_index = 1, success = False, result_data = None,
               result_error = Some ''No route found''\<rparr>,
              \<lparr>result_index = 2, success = False, result_data = None,
               result_error = Some ''Batch processing stopped due to previous error''\<rparr>,
              \<lparr>result_index = 3, success = False, result_data = None,
               result_error = Some ''Batch processing stopped due to previous error''\<rparr>,
              \<lparr>result_index = 4, success = False, result_data = None,
               result_error = Some ''Batch processing stopped due to previous error''\<rparr>]\<rparr> \<and>
   3 \<notin> set [0, 1::nat]"
proof -
  let ?b1 = "\<lparr>shouldStop = False, tasks = [InFlight, InFlight, Queued, Queued, Queued],
              calls = [0, 1]\<rparr> :: nat batch"
  let ?failed1 = "Done \<lparr>result_index = 1, success = False, result_data = None,
                          result_error = Some ''No route found''\<rparr> :: nat task"
  let ?stopped = "\<lambda>k. Done \<lparr>result_index = k, success = False, result_data = None,
      result_error = Some ''Batch processing stopped due to previous error''\<rparr> :: nat task"
  let ?b2 = "\<lparr>shouldStop = True, tasks = [InFlight, ?failed1, Queued, Queued, Queued],
              calls = [0, 1]\<rparr> :: nat batch"
  let ?b3 = "\<lparr>shouldStop = True, tasks = [InFlight, ?failed1, ?stopped 2, Queued, Queued],
              calls = [0, 1]\<rparr> :: nat batch"
  let ?b4 = "\<lparr>shouldStop = True,
              tasks = [Done \<lparr>result_index = 0, success = True, result_data = Some 42,
                             result_error = None\<rparr>,
                       ?failed1, ?stopped 2, ?stopped 3, ?stopped 4],
              calls = [0, 1]\<rparr> :: nat batch"
  have r1: "batchRun True 2 [Start, Start] (newBatch 5) = Some ?b1"
    by (simp add: newBatch_def inFlight_def numeral_eq_Suc)
  have r2: "batchStep True 2 (Settle 1 (Rejected ''No route found'')) ?b1 = Some ?b2"
    by simp
  have r3: "batchRun True 2 [Start] ?b2 = Some ?b3"
    by (simp add: inFlight_def stoppedResult_def)
  have i: "(3::nat) < 5" by simp
  have q: "tasks ?b2 ! 3 = Queued" by simp
  have nq: "nextQueued [InFlight, ?failed1, ?stopped 2, Queued, Queued] = Some 3"
    by (simp add: numeral_eq_Suc)
  have r4: "batchRun True 2 [Start, Settle 0 (Resolved 42), Start] ?b3 = Some ?b4"
    by (simp add: inFlight_def stoppedResult_def numeral_eq_Suc)
  have resp: "batchResponse ?b4 =
      Some \<lparr>totalRequests = 5, successful = 1, failed = 4,
            route_results =
              [\<lparr>result_index = 0, success = True, result_data = Some 42, result_error = None\<rparr>,
               \<lparr>result_index = 1, success = False, result_data = None,
                result_error = Some ''No route found''\<rparr>,
               \<lparr>result_index = 2, success = False, result_data = None,
                result_error = Some ''Batch processing stopped due to previous error''\<rparr>,
               \<lparr>result_index = 3, success = False, result_data = None,
                result_error = Some ''Batch processing stopped due to previous error''\<rparr>,
               \<lparr>result_index = 4, success = False, result_data = None,
                result_error = Some ''Batch processing stopped due to previous error''\<rparr>]\<rparr>"
    by (simp add: batchResponse_def)
  have fin: "finished ?b4"
    by (simp add: finished_def)
  from C2_failFast_stops_unstarted [OF r1 r2 r3 i q]
  have "\<forall>es b4. batchRun True 2 es ?b3 = Some b4 \<and> finished b4 \<longrightarrow> 3 \<notin> set (calls b4)"
    by blast
  with r4 fin have "3 \<notin> set (calls ?b4)" by blast
  then have "3 \<notin> set [0, 1::nat]" by simp
  with r1 r2 r3 i nq r4 resp show ?thesis
    by (intro conjI)
qed

subsection \<open>Cache\<close>

text \<open>The equations that run the cache on concrete calls.\<close>

lemmas cache_simps =
  wrapTwice_def wrap_def get_def set_value_def nodeCache_get_def nodeCache_set_def advance_def
  newCache_def expensiveFunction_def returnsUndefined_def Let_def live_def

text \<open>A call that finds a live entry with a defined value returns it and leaves the world alone.\<close>

lemma wrap_hit:
  assumes "enabled svc" and "store svc key = Some (entry, t)" and "t = 0 \<or> clock svc \<le> t"
    and "cached_data entry = Some v"
  shows "\<exists>svc'. wrap key fn ttl svc w = (Resolved (Some v), svc', w)"
  using assms by (auto simp: wrap_def get_def nodeCache_get_def Let_def)

text \<open>
  After any call with the cache enabled that does not reject, the entry of the key holds
  the value the call returned, unless the entry has already expired.
\<close>

lemma wrap_stores:
  assumes en: "enabled svc" and r: "wrap key fn ttl svc w = (Resolved r1, svc1, w1)"
    and st: "store svc1 key = Some (entry, t)"
  shows "cached_data entry = r1 \<and> enabled svc1"
proof (cases "get key svc")
  case (Pair c svcg)
  show ?thesis
  proof (cases c)
    case (Some cached)
    with Pair r have r1: "r1 = Some cached" and s1: "svc1 = svcg"
      by (simp_all add: wrap_def)
    from Pair Some en obtain e0 where
      "svcg = nodeCache_set
         ((snd (nodeCache_get svc key))\<lparr>stats := (stats (snd (nodeCache_get svc key)))
            \<lparr>hits := hits (stats (snd (nodeCache_get svc key))) + 1\<rparr>\<rparr>)
         key (e0\<lparr>entry_hits := entry_hits e0 + 1\<rparr>) None"
      and "cached_data e0 = Some cached" and "enabled svcg"
      by (auto simp: get_def Let_def nodeCache_get_def nodeCache_set_def
          split: option.splits prod.splits if_splits)
    with st s1 r1 show ?thesis
      by (auto simp: nodeCache_set_def Let_def)
  next
    case None
    with Pair en have eg: "enabled svcg"
      by (auto simp: get_def Let_def nodeCache_get_def nodeCache_set_def
          split: option.splits prod.splits if_splits)
    from None Pair r obtain w' where "fn w = (Resolved r1, w')"
      and s1: "svc1 = snd (set_value key r1 ttl svcg)"
      by (auto simp: wrap_def split: prod.splits settled.splits)
    with st eg show ?thesis
      by (auto simp: set_value_def nodeCache_set_def Let_def split: option.splits if_splits)
  qed
qed

text \<open>The world after a call: untouched, or the world the one call of \<open>fn\<close> left.\<close>

lemma wrap_world:
  assumes "wrap key fn ttl svc w = (r, svc1, w1)"
  shows "w1 = w \<or> w1 = snd (fn w)"
  using assms by (auto simp: wrap_def split: prod.splits option.splits settled.splits)

lemma wrap_defined:
  assumes "enabled svc" and "fn w = (Resolved (Some v), w')"
    and "wrap key fn ttl svc w = (r, svc1, w1)"
  shows "\<exists>v1. r = Resolved (Some v1)"
  using assms by (auto simp: wrap_def split: prod.splits option.splits settled.splits)

text \<open>
  The TTL window of an entry that a call has just computed and stored: \<open>ttl\<close> seconds (the
  default TTL when \<open>ttl\<close> is missing or 0), and for ever when that number is 0.
\<close>

lemma live_after_miss:
  assumes "enabled svc" and "store svc key = None" and "fn w = (Resolved r, w')"
  shows "live key (advance ms (fst (snd (wrap key fn ttl svc w)))) \<longleftrightarrow>
           (let seconds = (case ttl of None \<Rightarrow> stdTTL svc | Some s \<Rightarrow> if s \<noteq> 0 then s else stdTTL svc)
            in seconds = 0 \<or> ms \<le> seconds * 1000)"
  using assms
  by (auto simp: wrap_def get_def set_value_def nodeCache_get_def nodeCache_set_def
      advance_def live_def Let_def split: option.splits)

text \<open>
  C10 (as amended). With the cache feature enabled and a compute function that returns a
  value other than \<^verbatim>\<open>undefined\<close>: when \<^verbatim>\<open>wrap\<close> is called twice with the same key, the
  second call after the first has completed and while the entry is live (within the TTL
  window), the second call returns the stored value without invoking compute, its result
  equals the first's, and compute has been invoked at most once.
\<close>

theorem C10_wrap_twice:
  assumes en: "enabled svc"
    and fn: "fn w = (Resolved (Some v), w')"
    and first: "wrap key fn ttl svc w = (r1, svc1, w1)"
    and window: "live key (advance ms svc1)"
  shows "wrapTwice key fn ttl ms svc w = (r1, r1, w1) \<and> (w1 = w \<or> w1 = w')"
proof -
  from wrap_defined [OF en fn first] obtain v1 where r1: "r1 = Resolved (Some v1)"
    by blast
  from window obtain entry t where
    st: "store svc1 key = Some (entry, t)" and lv: "t = 0 \<or> clock svc1 + ms \<le> t"
    by (auto simp: live_def advance_def split: option.splits)
  from wrap_stores [OF en first [unfolded r1] st]
  have d: "cached_data entry = Some v1" and en1: "enabled svc1"
    by simp_all
  have "\<exists>svc'. wrap key fn ttl (advance ms svc1) w1 = (Resolved (Some v1), svc', w1)"
    by (rule wrap_hit [where entry = entry and t = t])
      (use en1 st lv d in \<open>simp_all add: advance_def\<close>)
  then have "wrapTwice key fn ttl ms svc w = (r1, r1, w1)"
    using first r1 by (auto simp: wrapTwice_def)
  moreover from wrap_world [OF first] fn have "w1 = w \<or> w1 = w'"
    by simp
  ultimately show ?thesis ..
qed

theorem C10_wrap_twice_witness:
  "enabled (newCache True 3600 :: string CacheService) \<and>
   expensiveFunction 0 = (Resolved (Some ''expensive-data''), 1) \<and>
   live ''wrap-test''
     (advance 1000 (fst (snd (wrap ''wrap-test'' expensiveFunction None (newCache True 3600) 0)))) \<and>
   wrapTwice ''wrap-test'' expensiveFunction None 1000 (newCache True 3600) 0 =
     (Resolved (Some ''expensive-data''), Resolved (Some ''expensive-data''), 1)"
proof -
  let ?svc = "newCache True 3600 :: string CacheService"
  have en: "enabled ?svc" by (simp add: newCache_def)
  have fn: "expensiveFunction 0 = (Resolved (Some ''expensive-data''), 1)"
    by (simp add: expensiveFunction_def)
  obtain svc1 where first:
    "wrap ''wrap-test'' expensiveFunction None ?svc 0 = (Resolved (Some ''expensive-data''), svc1, 1)"
    by (simp add: cache_simps)
  have window: "live ''wrap-test'' (advance 1000 svc1)"
    using first by (auto simp: cache_simps)
  from C10_wrap_twice [OF en fn first window]
  have "wrapTwice ''wrap-test'' expensiveFunction None 1000 ?svc 0 =
      (Resolved (Some ''expensive-data''), Resolved (Some ''expensive-data''), 1)"
    by simp
  moreover have "live ''wrap-test''
     (advance 1000 (fst (snd (wrap ''wrap-test'' expensiveFunction None ?svc 0))))"
    using window first by simp
  ultimately show ?thesis using en fn by simp
qed

text \<open>
  The claim as stated is about every key and every idempotent compute function. With
  the cache feature disabled \<^verbatim>\<open>get\<close> returns \<^verbatim>\<open>undefined\<close> and \<^verbatim>\<open>set\<close> stores nothing,
  and with a compute function that returns \<^verbatim>\<open>undefined\<close> the test
  \<^verbatim>\<open>cached !== undefined\<close> fails on the stored entry: in both runs the second call, one
  second after the first with a TTL of one hour, invokes compute again (call count 2).
\<close>

theorem C10_recompute_counterexample:
  "wrapTwice ''wrap-test'' expensiveFunction None 1000 (newCache False 3600) 0 =
     (Resolved (Some ''expensive-data''), Resolved (Some ''expensive-data''), 2) \<and>
   wrapTwice ''wrap-test'' returnsUndefined None 1000 (newCache True 3600) 0 =
     (Resolved None, Resolved None, 2)"
  by (simp add: cache_simps)

subsection \<open>Input validation\<close>

lemmas tool_simps =
  callTool_def validateToolInput_def schemaMap_def withDefaults_def
  RouteRequestSchema_def NearbyContextSchema_def GeoPinSchema_def EnrichLocationSchema_def
  LocationSchema_def inRange_def optionally_def routeLocations_def northOfPole_def pinTypes_def

text \<open>A tool with a schema hands only valid locations on.\<close>

lemma schema_tools_locations_valid:
  assumes "schemaMap toolName = Some schema" and "callTool toolName args = Inr locs"
  shows "list_all LocationSchema locs"
proof -
  from assms(1) have n: "toolName = ''generate_route'' \<or> toolName = ''get_nearby_context'' \<or>
      toolName = ''create_geopin'' \<or> toolName = ''enrich_location''"
    by (auto simp: schemaMap_def split: if_splits)
  from assms(2) have ok: "schema args" and locs: "locs = locationsUsed (withDefaults args)"
    and shape: "argsOf (withDefaults args) = toolName"
    using assms(1)
    by (auto simp: callTool_def validateToolInput_def split: if_splits sum.splits)
  show ?thesis
  proof (cases args)
    case (GenerateRoute r)
    with n shape assms(1) ok locs show ?thesis
      by (auto simp: schemaMap_def withDefaults_def RouteRequestSchema_def routeLocations_def
          optionally_def split: option.splits if_splits)
  next
    case (GetNearbyContext a)
    with n shape assms(1) ok locs show ?thesis
      by (auto simp: schemaMap_def withDefaults_def NearbyContextSchema_def split: if_splits)
  next
    case (CreateGeopin a)
    with n shape assms(1) ok locs show ?thesis
      by (auto simp: schemaMap_def withDefaults_def GeoPinSchema_def split: if_splits)
  next
    case (EnrichLocation a)
    with n shape assms(1) ok locs show ?thesis
      by (auto simp: schemaMap_def withDefaults_def EnrichLocationSchema_def split: if_splits)
  next
    case (BatchGenerateRoutes rs)
    with n shape show ?thesis by (auto simp: withDefaults_def)
  next
    case (BatchEnrichLocations ls)
    with n shape show ?thesis by (auto simp: withDefaults_def)
  qed
qed

text \<open>
  C6. A latitude outside [-90, 90] should be rejected at every entry point that accepts a
  location. The location (91, 0) is rejected by \<^verbatim>\<open>enrich_location\<close> with
  \<^verbatim>\<open>InvalidParams\<close>. Sent to \<^verbatim>\<open>batch_enrich_locations\<close>, for which \<^verbatim>\<open>schemaMap\<close> has no
  entry, it passes \<^verbatim>\<open>validateToolInput\<close> unchanged and the handler hands it to the POI
  provider.
\<close>

theorem C6_batch_location_unvalidated:
  "LocationSchema northOfPole = False \<and>
   callTool ''enrich_location'' (EnrichLocation \<lparr>enrich_location = northOfPole, enrich_radius = None\<rparr>)
     = Inl (InvalidParams ''enrich_location'') \<and>
   validateToolInput ''batch_enrich_locations''
       (BatchEnrichLocations [\<lparr>enrich_location = northOfPole, enrich_radius = None\<rparr>])
     = Inr (BatchEnrichLocations [\<lparr>enrich_location = northOfPole, enrich_radius = None\<rparr>]) \<and>
   callTool ''batch_enrich_locations''
       (BatchEnrichLocations [\<lparr>enrich_location = northOfPole, enrich_radius = None\<rparr>])
     = Inr [northOfPole]"
  by (simp add: tool_simps)

end
